theory Spec2Isabelle
  imports Main
begin

section \<open>Data model of patcher.py\<close>

text \<open>
  Python \<open>str\<close> values are modelled as \<open>string\<close>, one \<open>char\<close> per code point
  (code points up to 255), Python \<open>int\<close> as \<open>int\<close>. The three \<open>NamedTuple\<close>
  classes are records; \<open>HunkLine.op\<close> is a \<open>str\<close> in the source and stays a
  string here (\<open>'' ''\<close> context, \<open>''+''\<close> add, \<open>''-''\<close> remove).
\<close>

record HunkLine =
  op :: string
  text' :: string

record Hunk =
  old_start :: int
  old_count :: int
  new_start :: int
  new_count :: int
  lines :: "HunkLine list"

record FilePatch =
  old_path :: string
  new_path :: string
  hunks :: "Hunk list"

text \<open>Exceptions that can leave a function of the module.\<close>

datatype exn = IndexError | OSError string

section \<open>Python list and string primitives\<close>

text \<open>\<open>xs[:k]\<close>: a negative bound counts from the end and is clamped at 0.\<close>

definition slice_to :: "'a list \<Rightarrow> int \<Rightarrow> 'a list" where
  "slice_to xs k =
     (if k < 0 then take (nat (int (length xs) + k)) xs else take (nat k) xs)"

text \<open>\<open>xs[k:]\<close>.\<close>

definition slice_from :: "'a list \<Rightarrow> int \<Rightarrow> 'a list" where
  "slice_from xs k =
     (if k < 0 then drop (nat (int (length xs) + k)) xs else drop (nat k) xs)"

text \<open>\<open>xs[k]\<close>: raises \<open>IndexError\<close> outside \<open>-len(xs) \<le> k < len(xs)\<close>.\<close>

definition index_at :: "'a list \<Rightarrow> int \<Rightarrow> exn + 'a" where
  "index_at xs k =
     (let n = int (length xs); j = (if k < 0 then n + k else k)
      in if 0 \<le> j \<and> j < n then Inr (xs ! nat j) else Inl IndexError)"

text \<open>\<open>s.startswith(p)\<close>.\<close>

definition startswith :: "string \<Rightarrow> string \<Rightarrow> bool" where
  "startswith s p = (take (length p) s = p)"

text \<open>\<open>s.endswith(p)\<close>.\<close>

definition endswith :: "string \<Rightarrow> string \<Rightarrow> bool" where
  "endswith s p = (length p \<le> length s \<and> drop (length s - length p) s = p)"

text \<open>
  The line boundaries of \<open>str.splitlines\<close> among the code points up to 255:
  \<open>\n\<close>, \<open>\v\<close>, \<open>\f\<close>, \<open>\r\<close>, \<open>\x1c\<close>, \<open>\x1d\<close>, \<open>\x1e\<close>, \<open>\x85\<close>; \<open>\r\n\<close> is
  one boundary.
\<close>

definition is_linebreak :: "char \<Rightarrow> bool" where
  "is_linebreak c =
     (c \<in> set [CHR 0x0A, CHR 0x0B, CHR 0x0C, CHR 0x0D, CHR 0x1C, CHR 0x1D, CHR 0x1E, CHR 0x85])"

text \<open>
  \<open>s.splitlines()\<close>, with the line read so far in \<open>cur\<close>. A boundary ends the
  line, also an empty one; text after the last boundary is a line only when it is not
  empty.
\<close>

fun splitlines_from :: "string \<Rightarrow> string \<Rightarrow> string list" where
  "splitlines_from cur [] = (if cur = [] then [] else [cur])"
| "splitlines_from cur [c] =
     (if is_linebreak c then [cur] else [cur @ [c]])"
| "splitlines_from cur (c # d # cs) =
     (if c = CHR 0x0D \<and> d = CHR 0x0A then cur # splitlines_from [] cs
      else if is_linebreak c then cur # splitlines_from [] (d # cs)
      else splitlines_from (cur @ [c]) (d # cs))"

definition splitlines :: "string \<Rightarrow> string list" where
  "splitlines s = splitlines_from [] s"

text \<open>
  The characters \<open>str.strip()\<close> removes among the code points up to 255: those for
  which \<open>str.isspace\<close> holds.
\<close>

definition is_space :: "char \<Rightarrow> bool" where
  "is_space c =
     (c \<in> set [CHR 0x09, CHR 0x0A, CHR 0x0B, CHR 0x0C, CHR 0x0D, CHR 0x1C, CHR 0x1D,
                CHR 0x1E, CHR 0x1F, CHR 0x20, CHR 0x85, CHR 0xA0])"

definition strip :: "string \<Rightarrow> string" where
  "strip s = rev (dropWhile is_space (rev (dropWhile is_space s)))"

text \<open>\<open>s.split("\t")[0]\<close>: the text before the first tab.\<close>

definition before_tab :: "string \<Rightarrow> string" where
  "before_tab s = takeWhile (\<lambda>c. c \<noteq> CHR 0x09) s"

text \<open>\<open>"\n".join(xs)\<close>.\<close>

fun join_lines :: "string list \<Rightarrow> string" where
  "join_lines [] = []"
| "join_lines [x] = x"
| "join_lines (x # y # ys) = x @ CHR 0x0A # join_lines (y # ys)"

text \<open>
  \<open>\d\<close> and \<open>int\<close> on a match of \<open>\d+\<close>: among the code points up to 255 the
  decimal digits are \<open>0\<close> to \<open>9\<close>. The conversion is unbounded.
\<close>

definition is_digit :: "char \<Rightarrow> bool" where
  "is_digit c = (c \<in> set ''0123456789'')"

definition int_of_digits :: "string \<Rightarrow> int" where
  "int_of_digits ds = foldl (\<lambda>a c. 10 * a + (int (of_char c) - 48)) 0 ds"

text \<open>\<open>str(n)\<close> for an integer.\<close>

fun str_nat :: "nat \<Rightarrow> string" where
  "str_nat n =
     (if n < 10 then [char_of (48 + n)] else str_nat (n div 10) @ [char_of (48 + n mod 10)])"

definition str_int :: "int \<Rightarrow> string" where
  "str_int i = (if i < 0 then CHR ''-'' # str_nat (nat (- i)) else str_nat (nat i))"

section \<open>Parsing: \<open>parse_diff\<close>\<close>

definition strip_path_prefix :: "string \<Rightarrow> string" where
  "strip_path_prefix p =
     (if startswith p ''a/'' \<or> startswith p ''b/'' then drop 2 p
      else if p = ''/dev/null'' then []
      else p)"

text \<open>
  One side of the hunk header, \<open>(\d+)(?:,(\d+))?\<close>, matched at the start of \<open>s\<close>:
  the digits of the start, the digits of the count when the group took part, and the
  text that follows. Both repetitions are greedy, and what follows the pattern in the
  header is a space, so giving digits back never turns a failed match into a match.
\<close>

definition match_range :: "string \<Rightarrow> (string \<times> string option \<times> string) option" where
  "match_range s =
     (let d1 = takeWhile is_digit s; r1 = dropWhile is_digit s
      in if d1 = [] then None
         else if startswith r1 '','' \<and> takeWhile is_digit (drop 1 r1) \<noteq> []
         then Some (d1, Some (takeWhile is_digit (drop 1 r1)), dropWhile is_digit (drop 1 r1))
         else Some (d1, None, r1))"

text \<open>
  \<open>re.match(r"^@@ -(\d+)(?:,(\d+))? \+(\d+)(?:,(\d+))? @@", line)\<close> followed by the
  four \<open>int(...)\<close> conversions, a missing count being 1.
\<close>

definition hunk_header :: "string \<Rightarrow> (int \<times> int \<times> int \<times> int) option" where
  "hunk_header line =
     (if \<not> startswith line ''@@ -'' then None
      else (case match_range (drop 4 line) of
        None \<Rightarrow> None
      | Some (g1, g2, r) \<Rightarrow>
          (if \<not> startswith r '' +'' then None
           else (case match_range (drop 2 r) of
             None \<Rightarrow> None
           | Some (g3, g4, r') \<Rightarrow>
               (if \<not> startswith r' '' @@'' then None
                else Some (int_of_digits g1,
                           (case g2 of None \<Rightarrow> 1 | Some d \<Rightarrow> int_of_digits d),
                           int_of_digits g3,
                           (case g4 of None \<Rightarrow> 1 | Some d \<Rightarrow> int_of_digits d)))))))"

text \<open>
  The innermost \<open>while\<close> loop: it reads operation lines while a counter is positive
  and returns the hunk lines with the input that is left. Index \<open>i\<close> of the source is
  the list of lines from \<open>i\<close> on.
\<close>

fun parse_hunk_lines ::
  "string list \<Rightarrow> HunkLine list \<Rightarrow> int \<Rightarrow> int \<Rightarrow> HunkLine list \<times> string list"
where
  "parse_hunk_lines [] hunk_lines old_remaining new_remaining = (hunk_lines, [])"
| "parse_hunk_lines (line # rest) hunk_lines old_remaining new_remaining =
     (if \<not> (old_remaining > 0 \<or> new_remaining > 0) then (hunk_lines, line # rest)
      else if startswith line ''-'' then
        parse_hunk_lines rest (hunk_lines @ [\<lparr>op = ''-'', text' = drop 1 line\<rparr>])
          (old_remaining - 1) new_remaining
      else if startswith line ''+'' then
        parse_hunk_lines rest (hunk_lines @ [\<lparr>op = ''+'', text' = drop 1 line\<rparr>])
          old_remaining (new_remaining - 1)
      else if startswith line '' '' \<or> line = [] then
        parse_hunk_lines rest
          (hunk_lines @ [\<lparr>op = '' '', text' = (if line \<noteq> [] then drop 1 line else [])\<rparr>])
          (old_remaining - 1) (new_remaining - 1)
      else if startswith line [CHR 0x5C] then
        parse_hunk_lines rest hunk_lines old_remaining new_remaining
      else (hunk_lines, line # rest))"

lemma parse_hunk_lines_rest:
  "length (snd (parse_hunk_lines ls acc old_rem new_rem)) \<le> length ls"
  by (induction ls arbitrary: acc old_rem new_rem) (auto simp: le_SucI)

text \<open>
  The loop over the hunks of one file block: it ends at a line that starts with
  \<open>---\<close> or at the end of the input.
\<close>

function parse_hunks :: "string list \<Rightarrow> Hunk list \<Rightarrow> Hunk list \<times> string list" where
  "parse_hunks [] hs = (hs, [])"
| "parse_hunks (line # rest) hs =
     (if startswith line ''---'' then (hs, line # rest)
      else (case hunk_header line of
        None \<Rightarrow> parse_hunks rest hs
      | Some (o_start, o_count, n_start, n_count) \<Rightarrow>
          (case parse_hunk_lines rest [] o_count n_count of
             (hunk_lines, rest') \<Rightarrow>
               parse_hunks rest'
                 (hs @ [\<lparr>old_start = o_start, old_count = o_count,
                         new_start = n_start, new_count = n_count,
                         lines = hunk_lines\<rparr>]))))"
  by pat_completeness auto
termination
proof (relation "measure (\<lambda>(ls, hs). length ls)")
  show "wf (measure (\<lambda>(ls, hs). length ls))" by simp
next
  fix line :: string and rest :: "string list" and hs :: "Hunk list"
  show "((rest, hs), line # rest, hs) \<in> measure (\<lambda>(ls, hs). length ls)"
    by simp
next
  fix line :: string and rest rest' :: "string list" and hs :: "Hunk list"
    and x2 o_start y o_count ya n_start n_count xa hunk_lines
  assume "(hunk_lines, rest') = parse_hunk_lines rest [] o_count n_count"
  hence "rest' = snd (parse_hunk_lines rest [] o_count n_count)"
    by (metis snd_conv)
  with parse_hunk_lines_rest[of rest "[]" o_count n_count]
  show "((rest',
          hs @ [\<lparr>old_start = o_start, old_count = o_count, new_start = n_start,
                    new_count = n_count, lines = hunk_lines\<rparr>]),
         line # rest, hs) \<in> measure (\<lambda>(ls, hs). length ls)"
    by simp
qed

lemma parse_hunks_rest: "length (snd (parse_hunks ls acc)) \<le> length ls"
proof (induction ls acc rule: parse_hunks.induct)
  case (1 hs)
  show ?case by simp
next
  case (2 line rest hs)
  show ?case
  proof (cases "startswith line ''---''")
    case True
    thus ?thesis by simp
  next
    case False
    show ?thesis
    proof (cases "hunk_header line")
      case None
      with False "2.IH"(1) show ?thesis by (simp add: le_SucI)
    next
      case (Some hdr)
      obtain os oc ns nc where hdr: "hdr = (os, oc, ns, nc)" by (cases hdr) auto
      obtain hls rest' where body: "parse_hunk_lines rest [] oc nc = (hls, rest')"
        by (cases "parse_hunk_lines rest [] oc nc") auto
      have "length rest' \<le> length rest"
        using parse_hunk_lines_rest[of rest "[]" oc nc] body by simp
      moreover have "length (snd (parse_hunks rest'
             (hs @ [\<lparr>old_start = os, old_count = oc, new_start = ns, new_count = nc,
                        lines = hls\<rparr>]))) \<le> length rest'"
        using "2.IH"(2)[OF False Some[unfolded hdr] refl refl refl body[symmetric]] .
      ultimately show ?thesis using False Some hdr body by simp
    qed
  qed
qed

text \<open>
  The outer \<open>while\<close> loop of \<open>parse_diff\<close>: it looks for a line that starts with
  \<open>---\<close>, gives the candidate up when the next line does not start with \<open>+++\<close>
  (the scan goes on from that next line), and otherwise reads the hunks of the block.
\<close>

function parse_files :: "string list \<Rightarrow> FilePatch list \<Rightarrow> FilePatch list" where
  "parse_files [] patches = patches"
| "parse_files (line # rest) patches =
     (if \<not> startswith line ''---'' then parse_files rest patches
      else if rest = [] \<or> \<not> startswith (hd rest) ''+++'' then parse_files rest patches
      else (case parse_hunks (tl rest) [] of
        (hs, rest') \<Rightarrow>
          parse_files rest'
            (patches @
             [\<lparr>old_path = strip_path_prefix (before_tab (strip (drop 4 line))),
               new_path = strip_path_prefix (before_tab (strip (drop 4 (hd rest)))),
               hunks = hs\<rparr>])))"
  by pat_completeness auto
termination
proof (relation "measure (\<lambda>(ls, ps). length ls)")
  show "wf (measure (\<lambda>(ls, ps). length ls))" by simp
next
  fix line :: string and rest :: "string list" and patches :: "FilePatch list"
  show "((rest, patches), line # rest, patches) \<in> measure (\<lambda>(ls, ps). length ls)"
    by simp
  thus "((rest, patches), line # rest, patches) \<in> measure (\<lambda>(ls, ps). length ls)" .
next
  fix line :: string and rest rest' :: "string list" and patches :: "FilePatch list"
    and x hs
  assume "(hs, rest') = parse_hunks (tl rest) []"
  hence "rest' = snd (parse_hunks (tl rest) [])"
    by (metis snd_conv)
  with parse_hunks_rest[of "tl rest" "[]"]
  show "((rest',
          patches @
          [\<lparr>old_path = strip_path_prefix (before_tab (strip (drop 4 line))),
            new_path = strip_path_prefix (before_tab (strip (drop 4 (hd rest)))),
            hunks = hs\<rparr>]),
         line # rest, patches) \<in> measure (\<lambda>(ls, ps). length ls)"
    by simp
qed

definition parse_diff :: "string \<Rightarrow> FilePatch list" where
  "parse_diff diff_text = parse_files (splitlines diff_text) []"

section \<open>Applying one hunk: \<open>_apply_hunk\<close>\<close>

text \<open>
  The \<open>for op, text in hunk.lines\<close> loop, with the accumulated \<open>result\<close> and the
  cursor \<open>src_idx\<close> as loop state. \<open>Inr None\<close> is the early \<open>return None\<close>,
  \<open>Inl e\<close> an exception raised by \<open>file_lines[src_idx]\<close>, and
  \<open>Inr (Some (result, src_idx))\<close> the state after the last entry.
\<close>

fun hunk_loop ::
  "HunkLine list \<Rightarrow> string list \<Rightarrow> string list \<Rightarrow> int \<Rightarrow> exn + (string list \<times> int) option"
where
  "hunk_loop [] file_lines result src_idx = Inr (Some (result, src_idx))"
| "hunk_loop (hl # rest) file_lines result src_idx =
     (if op hl = '' '' then
        (if src_idx \<ge> int (length file_lines) then Inr None
         else (case index_at file_lines src_idx of
                 Inl e \<Rightarrow> Inl e
               | Inr l \<Rightarrow> hunk_loop rest file_lines (result @ [l]) (src_idx + 1)))
      else if op hl = ''-'' then
        (if src_idx \<ge> int (length file_lines) then Inr None
         else hunk_loop rest file_lines result (src_idx + 1))
      else if op hl = ''+'' then
        hunk_loop rest file_lines (result @ [text' hl]) src_idx
      else hunk_loop rest file_lines result src_idx)"

definition apply_hunk :: "string list \<Rightarrow> Hunk \<Rightarrow> exn + string list option" where
  "apply_hunk file_lines hunk =
     (let hunk_start = old_start hunk - 1;
          result = slice_to file_lines hunk_start
      in case hunk_loop (lines hunk) file_lines result hunk_start of
           Inl e \<Rightarrow> Inl e
         | Inr None \<Rightarrow> Inr None
         | Inr (Some (result', src_idx)) \<Rightarrow>
             Inr (Some (result' @ slice_from file_lines src_idx)))"

text \<open>
  The \<open>for hunk in reversed(patch.hunks)\<close> loop of \<open>apply_patch\<close>, run over the
  list it is given (the caller passes \<open>rev (hunks patch)\<close>). A mismatch carries the
  hunk that failed, which the caller reads for its message.
\<close>

fun apply_hunks :: "Hunk list \<Rightarrow> string list \<Rightarrow> exn + (Hunk + string list)" where
  "apply_hunks [] file_lines = Inr (Inr file_lines)"
| "apply_hunks (hunk # rest) file_lines =
     (case apply_hunk file_lines hunk of
        Inl e \<Rightarrow> Inl e
      | Inr None \<Rightarrow> Inr (Inl hunk)
      | Inr (Some file_lines') \<Rightarrow> apply_hunks rest file_lines')"

section \<open>The directory tree and the database\<close>

text \<open>
  The state that \<open>apply_patch\<close> and \<open>apply_diff_to_codebase\<close> act on. A path is the
  string \<open>rel\<close> that the code joins to the resolved root, so the state is the tree
  under \<open>root_path\<close> and paths are compared as written.
  \<^item> \<open>files\<close>: the text of each existing path, as \<open>read_text\<close> returns it;
  \<^item> \<open>read_error\<close>, \<open>write_error\<close>, \<open>mkdir_error\<close>: the paths on which
    \<open>read_text\<close>, \<open>write_text\<close> and \<open>parent.mkdir\<close> raise, with the text of the
    exception (permissions, a directory in place of a file, a full disk);
  \<^item> \<open>mkdirs\<close>: the paths whose parent directories have been created by
    \<open>parent.mkdir(parents=True, exist_ok=True)\<close>;
  \<^item> \<open>db_files\<close>: the rows of table \<open>files\<close>, by codebase id and relative path;
  \<^item> \<open>db_error\<close>: the paths for which \<open>db.update_file_content\<close> raises.
  A write either stores the whole text or raises and stores nothing.
\<close>

record fs_state =
  files :: "string \<rightharpoonup> string"
  read_error :: "string \<rightharpoonup> string"
  write_error :: "string \<rightharpoonup> string"
  mkdir_error :: "string \<rightharpoonup> string"
  mkdirs :: "string list"
  db_files :: "int \<times> string \<rightharpoonup> string"
  db_error :: "string \<Rightarrow> bool"

section \<open>Applying one file patch: \<open>apply_patch\<close>\<close>

text \<open>
  The content of a new file: the two nested \<open>for\<close> loops that append
  \<open>text + "\n"\<close> for every entry whose \<open>op\<close> is \<open>"+"\<close> or \<open>" "\<close>.
\<close>

definition new_file_content :: "Hunk list \<Rightarrow> string" where
  "new_file_content hs =
     foldl (\<lambda>content hunk.
        foldl (\<lambda>content hl.
           if op hl = ''+'' \<or> op hl = '' '' then content @ text' hl @ [CHR 0x0A]
           else content)
          content (lines hunk))
       [] hs"

text \<open>
  The branch \<open>if not patch.old_path\<close>: everything is inside one \<open>try\<close>, so a
  failure of \<open>mkdir\<close> or of \<open>write_text\<close> becomes a \<open>(False, ...)\<close> result.
\<close>

definition create_file :: "FilePatch \<Rightarrow> string \<Rightarrow> fs_state \<Rightarrow> (exn + bool \<times> string) \<times> fs_state" where
  "create_file patch rel s =
     (case mkdir_error s rel of
        Some e \<Rightarrow> (Inr (False, ''Failed to create '' @ rel @ '': '' @ e), s)
      | None \<Rightarrow>
          (let s1 = s\<lparr>mkdirs := mkdirs s @ [rel]\<rparr>
           in case write_error s1 rel of
                Some e \<Rightarrow> (Inr (False, ''Failed to create '' @ rel @ '': '' @ e), s1)
              | None \<Rightarrow>
                  (Inr (True, ''Created new file: '' @ rel),
                   s1\<lparr>files := (files s1)(rel \<mapsto> new_file_content (hunks patch))\<rparr>)))"

text \<open>
  The rest of \<open>apply_patch\<close> once the path \<open>rel\<close> exists with text \<open>original\<close>:
  \<open>read_text\<close> inside its \<open>try\<close>, the loop over the reversed hunks, and the final
  \<open>write_text\<close>, which stands outside every \<open>try\<close>. So does the loop: an exception
  of \<open>_apply_hunk\<close> leaves the function.
\<close>

definition patch_existing ::
  "FilePatch \<Rightarrow> string \<Rightarrow> string \<Rightarrow> fs_state \<Rightarrow> (exn + bool \<times> string) \<times> fs_state"
where
  "patch_existing patch rel original s =
     (case read_error s rel of
        Some e \<Rightarrow> (Inr (False, ''Cannot read '' @ rel @ '': '' @ e), s)
      | None \<Rightarrow>
          (case apply_hunks (rev (hunks patch)) (splitlines original) of
             Inl e \<Rightarrow> (Inl e, s)
           | Inr (Inl hunk) \<Rightarrow>
               (Inr (False, ''Hunk mismatch in '' @ rel @ '' at line '' @
                            str_int (old_start hunk) @ ''. Patch may be stale.''), s)
           | Inr (Inr file_lines) \<Rightarrow>
               (let joined = join_lines file_lines;
                    patched_content =
                      (if \<not> endswith joined [CHR 0x0A] then joined @ [CHR 0x0A] else joined)
                in case write_error s rel of
                     Some e \<Rightarrow> (Inl (OSError e), s)
                   | None \<Rightarrow>
                       (Inr (True, ''Patched: '' @ rel),
                        s\<lparr>files := (files s)(rel \<mapsto> patched_content)\<rparr>))))"

definition apply_patch :: "FilePatch \<Rightarrow> fs_state \<Rightarrow> (exn + bool \<times> string) \<times> fs_state" where
  "apply_patch patch s =
     (let rel = (if new_path patch \<noteq> [] then new_path patch else old_path patch)
      in if rel = [] then (Inr (False, ''Could not determine file path from diff.''), s)
         else if old_path patch = [] then create_file patch rel s
         else (case files s rel of
                 Some original \<Rightarrow> patch_existing patch rel original s
               | None \<Rightarrow>
                   (case files s (old_path patch) of
                      Some original \<Rightarrow> patch_existing patch (old_path patch) original s
                    | None \<Rightarrow> (Inr (False, ''File not found: '' @ rel), s))))"

section \<open>Applying a whole diff: \<open>apply_diff_to_codebase\<close>\<close>

text \<open>
  The block under \<open>if ok\<close>: the file is read back and the row of the database is
  updated; \<open>UPDATE\<close> changes existing rows only, and every exception is swallowed.
\<close>

definition sync_db :: "FilePatch \<Rightarrow> int \<Rightarrow> fs_state \<Rightarrow> fs_state" where
  "sync_db patch codebase_id s =
     (let rel = (if new_path patch \<noteq> [] then new_path patch else old_path patch)
      in if rel = [] then s
         else (case files s rel of
                 None \<Rightarrow> s
               | Some new_content \<Rightarrow>
                   (if read_error s rel \<noteq> None \<or> db_error s rel then s
                    else if db_files s (codebase_id, rel) = None then s
                    else s\<lparr>db_files := (db_files s)((codebase_id, rel) \<mapsto> new_content)\<rparr>)))"

text \<open>
  The \<open>for patch in patches\<close> loop. \<open>apply_patch\<close> is called outside every \<open>try\<close>:
  an exception that leaves it ends the loop and leaves \<open>apply_diff_to_codebase\<close>.
\<close>

fun apply_patches ::
  "FilePatch list \<Rightarrow> int \<Rightarrow> (bool \<times> string) list \<Rightarrow> fs_state \<Rightarrow>
   (exn + (bool \<times> string) list) \<times> fs_state"
where
  "apply_patches [] codebase_id results s = (Inr results, s)"
| "apply_patches (patch # rest) codebase_id results s =
     (case apply_patch patch s of
        (Inl e, s') \<Rightarrow> (Inl e, s')
      | (Inr (ok, msg), s') \<Rightarrow>
          apply_patches rest codebase_id (results @ [(ok, msg)])
            (if ok then sync_db patch codebase_id s' else s'))"

definition apply_diff_to_codebase ::
  "string \<Rightarrow> int \<Rightarrow> fs_state \<Rightarrow> (exn + (bool \<times> string) list) \<times> fs_state"
where
  "apply_diff_to_codebase diff_text codebase_id s =
     (let patches = parse_diff diff_text
      in if patches = [] then (Inr [(False, ''No valid patches found in diff.'')], s)
         else apply_patches patches codebase_id [] s)"

section \<open>Vocabulary of the claims\<close>

subsection \<open>Hunks and line buffers\<close>

text \<open>An entry that reads the old side of the file: context or remove.\<close>

definition is_old :: "HunkLine \<Rightarrow> bool" where
  "is_old hl = (op hl = '' '' \<or> op hl = ''-'')"

text \<open>An entry that writes to the new side of the file: context or add.\<close>

definition is_new :: "HunkLine \<Rightarrow> bool" where
  "is_new hl = (op hl = '' '' \<or> op hl = ''+'')"

definition count_old :: "HunkLine list \<Rightarrow> nat" where
  "count_old ls = length (filter is_old ls)"

definition count_new :: "HunkLine list \<Rightarrow> nat" where
  "count_new ls = length (filter is_new ls)"

text \<open>
  The value of the source cursor when entry \<open>k\<close> of the hunk is reached: the 0-based
  start plus one for every context or remove entry before it.
\<close>

definition cursor_at :: "Hunk \<Rightarrow> nat \<Rightarrow> int" where
  "cursor_at h k = old_start h - 1 + int (count_old (take k (lines h)))"

text \<open>
  Some context or remove entry is processed with the cursor at or past the end of the
  buffer. Entry \<open>k\<close> is processed when no earlier entry left the loop; an earlier
  overrun is itself such an entry, so what remains to exclude is an earlier context
  entry whose negative cursor lies below \<open>-len\<close> (an \<open>IndexError\<close>).
\<close>

definition overruns :: "string list \<Rightarrow> Hunk \<Rightarrow> bool" where
  "overruns file_lines h =
     (\<exists>k < length (lines h).
        is_old (lines h ! k) \<and> int (length file_lines) \<le> cursor_at h k \<and>
        (\<forall>j < k. op (lines h ! j) = '' '' \<longrightarrow> - int (length file_lines) \<le> cursor_at h j))"

text \<open>A hunk all of whose entries are additions.\<close>

definition only_adds :: "Hunk \<Rightarrow> bool" where
  "only_adds h = list_all (\<lambda>hl. op hl = ''+'') (lines h)"

text \<open>
  Two hunks that agree on positions, counts, operation kinds and on the text of every
  entry that is not a context or remove entry.
\<close>

definition equal_up_to_old_text :: "Hunk \<Rightarrow> Hunk \<Rightarrow> bool" where
  "equal_up_to_old_text h1 h2 =
     (old_start h1 = old_start h2 \<and> old_count h1 = old_count h2 \<and>
      new_start h1 = new_start h2 \<and> new_count h1 = new_count h2 \<and>
      list_all2 (\<lambda>a b. op a = op b \<and> (\<not> is_old a \<longrightarrow> text' a = text' b))
        (lines h1) (lines h2))"

subsection \<open>Several hunks of one file\<close>

text \<open>
  The net change of the buffer length made by one hunk: lines written minus lines
  read.
\<close>

definition hunk_delta :: "Hunk \<Rightarrow> int" where
  "hunk_delta h = int (count_new (lines h)) - int (count_old (lines h))"

text \<open>
  Reference model, following the words of the specification: the hunks are applied
  in ascending order, each at its recorded start shifted by the line-number offset
  that the hunks before it introduced.
\<close>

fun forward_simulation :: "Hunk list \<Rightarrow> string list \<Rightarrow> int \<Rightarrow> exn + (Hunk + string list)" where
  "forward_simulation [] file_lines offset = Inr (Inr file_lines)"
| "forward_simulation (hunk # rest) file_lines offset =
     (case apply_hunk file_lines (hunk\<lparr>old_start := old_start hunk + offset\<rparr>) of
        Inl e \<Rightarrow> Inl e
      | Inr None \<Rightarrow> Inr (Inl hunk)
      | Inr (Some file_lines') \<Rightarrow>
          forward_simulation rest file_lines' (offset + hunk_delta hunk))"

text \<open>
  The hunks are in ascending order and read pairwise disjoint ranges of a file of
  \<open>n\<close> lines: each range starts at or after \<open>lo\<close> (0-based), where the range of
  the hunk before ended, and the last one ends at or before line \<open>n\<close>. The range of
  a hunk is what the applier reads: one line per context or remove entry.
\<close>

fun in_file_order :: "Hunk list \<Rightarrow> int \<Rightarrow> int \<Rightarrow> bool" where
  "in_file_order [] lo n = True"
| "in_file_order (h # hs) lo n =
     (lo \<le> old_start h - 1 \<and>
      old_start h - 1 + int (count_old (lines h)) \<le> n \<and>
      in_file_order hs (old_start h - 1 + int (count_old (lines h))) n)"

text \<open>
  Closed forms used in the proofs. \<open>emitted ls buf c\<close> is what a hunk body writes
  when its cursor starts at \<open>c\<close> and stays inside \<open>buf\<close>; \<open>patched hs buf pos\<close> is
  the new content that replaces \<open>buf\<close> from line \<open>pos\<close> on.
\<close>

fun emitted :: "HunkLine list \<Rightarrow> string list \<Rightarrow> nat \<Rightarrow> string list" where
  "emitted [] buf c = []"
| "emitted (hl # rest) buf c =
     (if op hl = '' '' then buf ! c # emitted rest buf (Suc c)
      else if op hl = ''-'' then emitted rest buf (Suc c)
      else if op hl = ''+'' then text' hl # emitted rest buf c
      else emitted rest buf c)"

fun patched :: "Hunk list \<Rightarrow> string list \<Rightarrow> nat \<Rightarrow> string list" where
  "patched [] buf pos = drop pos buf"
| "patched (h # hs) buf pos =
     take (nat (old_start h - 1) - pos) (drop pos buf) @
     emitted (lines h) buf (nat (old_start h - 1)) @
     patched hs buf (nat (old_start h - 1) + count_old (lines h))"

subsection \<open>Diff text\<close>

text \<open>
  A raw line of a hunk body counts on the old side when it is a remove or a context
  line, on the new side when it is an add or a context line; an empty line is a
  context line. An operation line is one of these or a \<open>\\<close> marker line.
\<close>

definition raw_old :: "string \<Rightarrow> bool" where
  "raw_old l = (startswith l ''-'' \<or> startswith l '' '' \<or> l = [])"

definition raw_new :: "string \<Rightarrow> bool" where
  "raw_new l = (startswith l ''+'' \<or> startswith l '' '' \<or> l = [])"

definition op_line :: "string \<Rightarrow> bool" where
  "op_line l = (raw_old l \<or> raw_new l \<or> startswith l [CHR 0x5C])"

text \<open>
  The lines after a header form a valid body for the declared counts: some prefix of
  them consists of operation lines only and holds exactly \<open>oc\<close> old-side and \<open>nc\<close>
  new-side lines. Nothing is missing (no truncation by another kind of line or by the
  end of the input) and nothing exceeds a declared count.
\<close>

definition valid_body :: "string list \<Rightarrow> int \<Rightarrow> int \<Rightarrow> bool" where
  "valid_body ls oc nc =
     (\<exists>n \<le> length ls.
        list_all op_line (take n ls) \<and>
        int (length (filter raw_old (take n ls))) = oc \<and>
        int (length (filter raw_new (take n ls))) = nc)"

text \<open>Every hunk header line of the input is followed by a valid body.\<close>

fun headers_valid :: "string list \<Rightarrow> bool" where
  "headers_valid [] = True"
| "headers_valid (l # ls) =
     ((case hunk_header l of
         None \<Rightarrow> True
       | Some (o_start, o_count, n_start, n_count) \<Rightarrow> valid_body ls o_count n_count) \<and>
      headers_valid ls)"

text \<open>The invariant of the data model on one hunk.\<close>

definition counts_match :: "Hunk \<Rightarrow> bool" where
  "counts_match h =
     (int (count_old (lines h)) = old_count h \<and> int (count_new (lines h)) = new_count h)"

text \<open>
  No line that starts with \<open>---\<close> is followed at once by a line that starts with
  \<open>+++\<close>.
\<close>

fun no_header_pair :: "string list \<Rightarrow> bool" where
  "no_header_pair (l # l2 # ls) =
     (\<not> (startswith l ''---'' \<and> startswith l2 ''+++'') \<and> no_header_pair (l2 # ls))"
| "no_header_pair ls = True"

subsection \<open>Files\<close>

text \<open>
  The path that \<open>apply_patch\<close> reads and writes for a modification: \<open>new_path\<close>
  (or \<open>old_path\<close> when \<open>new_path\<close> is empty), and \<open>old_path\<close> when nothing exists
  there.
\<close>

definition target_path :: "FilePatch \<Rightarrow> fs_state \<Rightarrow> string" where
  "target_path patch s =
     (let rel = (if new_path patch \<noteq> [] then new_path patch else old_path patch)
      in if files s rel = None then old_path patch else rel)"

text \<open>The text of every add and context entry, across all hunks in order.\<close>

definition kept_texts :: "Hunk list \<Rightarrow> string list" where
  "kept_texts hs = map text' (filter is_new (concat (map lines hs)))"

section \<open>Example inputs\<close>

text \<open>The hunk \<open>@@ -1,3 +1,3 @@\<close> with body \<open>" a"\<close>, \<open>"-b"\<close>, \<open>"+B"\<close>, \<open>" c"\<close>.\<close>

definition ex_hunk :: Hunk where
  "ex_hunk =
     \<lparr>old_start = 1, old_count = 3, new_start = 1, new_count = 3,
      lines = [\<lparr>op = '' '', text' = ''a''\<rparr>, \<lparr>op = ''-'', text' = ''b''\<rparr>,
               \<lparr>op = ''+'', text' = ''B''\<rparr>, \<lparr>op = '' '', text' = ''c''\<rparr>]\<rparr>"

text \<open>The same hunk with other text on its context and remove entries.\<close>

definition ex_hunk_retext :: Hunk where
  "ex_hunk_retext =
     \<lparr>old_start = 1, old_count = 3, new_start = 1, new_count = 3,
      lines = [\<lparr>op = '' '', text' = ''something else''\<rparr>,
               \<lparr>op = ''-'', text' = ''never there''\<rparr>,
               \<lparr>op = ''+'', text' = ''B''\<rparr>, \<lparr>op = '' '', text' = []\<rparr>]\<rparr>"

text \<open>A pure addition placed at old line 5.\<close>

definition ex_append_hunk :: Hunk where
  "ex_append_hunk =
     \<lparr>old_start = 5, old_count = 0, new_start = 5, new_count = 1,
      lines = [\<lparr>op = ''+'', text' = ''x''\<rparr>]\<rparr>"

text \<open>A one-hunk patch that removes line 2 of a two-line file.\<close>

definition ex_remove_hunk :: Hunk where
  "ex_remove_hunk =
     \<lparr>old_start = 2, old_count = 1, new_start = 1, new_count = 0,
      lines = [\<lparr>op = ''-'', text' = ''b''\<rparr>]\<rparr>"

text \<open>Two hunks of a 25-line file, at old lines 2 and 20.\<close>

definition ex_hunk_2 :: Hunk where
  "ex_hunk_2 =
     \<lparr>old_start = 2, old_count = 2, new_start = 2, new_count = 3,
      lines = [\<lparr>op = '' '', text' = ''l2''\<rparr>, \<lparr>op = ''+'', text' = ''new a''\<rparr>,
               \<lparr>op = ''+'', text' = ''new b''\<rparr>, \<lparr>op = ''-'', text' = ''l3''\<rparr>]\<rparr>"

definition ex_hunk_20 :: Hunk where
  "ex_hunk_20 =
     \<lparr>old_start = 20, old_count = 2, new_start = 21, new_count = 1,
      lines = [\<lparr>op = ''-'', text' = ''l20''\<rparr>, \<lparr>op = ''-'', text' = ''l21''\<rparr>,
               \<lparr>op = ''+'', text' = ''new c''\<rparr>]\<rparr>"

definition ex_25_lines :: "string list" where
  "ex_25_lines =
     [''l1'', ''l2'', ''l3'', ''l4'', ''l5'', ''l6'', ''l7'', ''l8'', ''l9'', ''l10'',
      ''l11'', ''l12'', ''l13'', ''l14'', ''l15'', ''l16'', ''l17'', ''l18'', ''l19'', ''l20'',
      ''l21'', ''l22'', ''l23'', ''l24'', ''l25'']"

definition ex_patch :: FilePatch where
  "ex_patch = \<lparr>old_path = ''f.txt'', new_path = ''f.txt'', hunks = [ex_hunk]\<rparr>"

definition ex_remove_patch :: FilePatch where
  "ex_remove_patch = \<lparr>old_path = ''f.txt'', new_path = ''f.txt'', hunks = [ex_remove_hunk]\<rparr>"

definition ex_new_file_patch :: FilePatch where
  "ex_new_file_patch =
     \<lparr>old_path = [], new_path = ''g.txt'',
      hunks = [\<lparr>old_start = 0, old_count = 0, new_start = 1, new_count = 1,
                lines = [\<lparr>op = ''+'', text' = ''new''\<rparr>]\<rparr>]\<rparr>"

definition ex_zero_start_patch :: FilePatch where
  "ex_zero_start_patch =
     \<lparr>old_path = ''f.txt'', new_path = ''f.txt'',
      hunks = [\<lparr>old_start = 0, old_count = 1, new_start = 1, new_count = 1,
                lines = [\<lparr>op = '' '', text' = ''x''\<rparr>]\<rparr>]\<rparr>"

text \<open>The diff of the concrete scenario, for the file \<open>f.txt\<close>.\<close>

definition ex_diff_text :: string where
  "ex_diff_text =
     ''--- a/f.txt\<newline>+++ b/f.txt\<newline>@@ -1,3 +1,3 @@\<newline> a\<newline>-b\<newline>+B\<newline> c\<newline>''"

text \<open>A file block whose \<open>---\<close> line has no \<open>+++\<close> line after it.\<close>

definition ex_headless_diff :: string where
  "ex_headless_diff = ''--- a/f.txt\<newline>@@ -1,3 +1,3 @@\<newline> a\<newline>-b\<newline>+B\<newline> c\<newline>''"

text \<open>The diff of the scenario followed by the creation of \<open>g.txt\<close>.\<close>

definition ex_two_file_diff :: string where
  "ex_two_file_diff =
     ex_diff_text @ ''--- /dev/null\<newline>+++ b/g.txt\<newline>@@ -0,0 +1,1 @@\<newline>+new\<newline>''"

text \<open>A hunk that starts at old line 0 and holds one context line.\<close>

definition ex_zero_start_diff :: string where
  "ex_zero_start_diff = ''--- a/f.txt\<newline>+++ b/f.txt\<newline>@@ -0,1 +1,1 @@\<newline> x\<newline>''"

text \<open>A tree that holds only \<open>f.txt\<close> with the given text; nothing ever fails.\<close>

definition ex_state :: "string \<Rightarrow> fs_state" where
  "ex_state content =
     \<lparr>files = [''f.txt'' \<mapsto> content], read_error = Map.empty, write_error = Map.empty,
      mkdir_error = Map.empty, mkdirs = [], db_files = Map.empty, db_error = (\<lambda>p. False)\<rparr>"

text \<open>The same tree with \<open>f.txt\<close> read-only.\<close>

definition ex_readonly_state :: "string \<Rightarrow> fs_state" where
  "ex_readonly_state content =
     (ex_state content)\<lparr>write_error := [''f.txt'' \<mapsto> ''Permission denied'']\<rparr>"

section \<open>Properties of \<open>_apply_hunk\<close>\<close>

lemma index_at_cases:
  "k < int (length xs) \<Longrightarrow>
   (k < - int (length xs) \<and> index_at xs k = Inl IndexError) \<or>
   (- int (length xs) \<le> k \<and> (\<exists>l. index_at xs k = Inr l))"
  by (simp add: index_at_def Let_def)

lemma hunk_loop_none_iff:
  "hunk_loop ls buf res c = Inr None \<longleftrightarrow>
   (\<exists>k < length ls. is_old (ls ! k) \<and> int (length buf) \<le> c + int (count_old (take k ls)) \<and>
      (\<forall>j < k. op (ls ! j) = '' '' \<longrightarrow> - int (length buf) \<le> c + int (count_old (take j ls))))"
proof (induction ls arbitrary: res c)
  case Nil
  show ?case by simp
next
  case (Cons hl rest)
  let ?n = "int (length buf)"
  let ?P = "\<lambda>ls c k. is_old (ls ! k) \<and> ?n \<le> c + int (count_old (take k ls)) \<and>
      (\<forall>j < k. op (ls ! j) = '' '' \<longrightarrow> - ?n \<le> c + int (count_old (take j ls)))"
  have split_ex: "(\<exists>k < length (hl # rest). ?P (hl # rest) c k) \<longleftrightarrow>
      ?P (hl # rest) c 0 \<or> (\<exists>k < length rest. ?P (hl # rest) c (Suc k))"
    by (simp only: length_Cons Ex_less_Suc2)
  have P0: "?P (hl # rest) c 0 \<longleftrightarrow> is_old hl \<and> ?n \<le> c"
    by (simp add: count_old_def)
  have PS: "?P (hl # rest) c (Suc k) \<longleftrightarrow>
      (op hl = '' '' \<longrightarrow> - ?n \<le> c) \<and> ?P rest (if is_old hl then c + 1 else c) k" for k
    by (auto simp: count_old_def All_less_Suc2)
  show ?case
  proof (cases "is_old hl")
    case old: True
    show ?thesis
    proof (cases "?n \<le> c")
      case True
      with old have "hunk_loop (hl # rest) buf res c = Inr None"
        by (auto simp: is_old_def)
      with True old show ?thesis unfolding split_ex P0 by simp
    next
      case False
      hence lt: "c < ?n" by simp
      show ?thesis
      proof (cases "op hl = '' ''")
        case ctx: True
        from index_at_cases[OF lt] show ?thesis
        proof
          assume a: "c < - ?n \<and> index_at buf c = Inl IndexError"
          hence "hunk_loop (hl # rest) buf res c = Inl IndexError"
            using ctx lt by simp
          moreover have "\<not> (\<exists>k < length (hl # rest). ?P (hl # rest) c k)"
            unfolding split_ex P0 PS using a ctx lt by auto
          ultimately show ?thesis by simp
        next
          assume a: "- ?n \<le> c \<and> (\<exists>l. index_at buf c = Inr l)"
          then obtain l where l: "index_at buf c = Inr l" by blast
          have "hunk_loop (hl # rest) buf res c = hunk_loop rest buf (res @ [l]) (c + 1)"
            using ctx lt l by simp
          thus ?thesis unfolding split_ex P0 PS using a old lt Cons.IH[of "res @ [l]" "c + 1"]
            by simp
        qed
      next
        case nctx: False
        with old have rm: "op hl = ''-''" by (simp add: is_old_def)
        have "hunk_loop (hl # rest) buf res c = hunk_loop rest buf res (c + 1)"
          using rm lt by simp
        thus ?thesis unfolding split_ex P0 PS using old lt nctx Cons.IH[of res "c + 1"]
          by simp
      qed
    qed
  next
    case new: False
    hence ops: "op hl \<noteq> '' ''" "op hl \<noteq> ''-''" by (simp_all add: is_old_def)
    have "\<exists>res'. hunk_loop (hl # rest) buf res c = hunk_loop rest buf res' c"
      using ops by auto
    then obtain res' where "hunk_loop (hl # rest) buf res c = hunk_loop rest buf res' c" ..
    thus ?thesis unfolding split_ex P0 PS using new ops Cons.IH[of res' c]
      by simp
  qed
qed

lemma hunk_loop_adds:
  "\<forall>hl \<in> set ls. op hl = ''+'' \<Longrightarrow>
   hunk_loop ls buf res c = Inr (Some (res @ map text' ls, c))"
  by (induction ls arbitrary: res) simp_all

lemma slice_past_end:
  "int (length xs) \<le> k \<Longrightarrow> slice_to xs k = xs \<and> slice_from xs k = []"
  by (simp add: slice_to_def slice_from_def)

lemma apply_hunk_none_iff: "apply_hunk buf h = Inr None \<longleftrightarrow> overruns buf h"
proof -
  have "apply_hunk buf h = Inr None \<longleftrightarrow>
        hunk_loop (lines h) buf (slice_to buf (old_start h - 1)) (old_start h - 1) = Inr None"
    by (simp add: apply_hunk_def Let_def split: sum.splits option.splits)
  thus ?thesis
    by (simp add: hunk_loop_none_iff overruns_def cursor_at_def)
qed

lemma apply_hunk_adds:
  assumes "only_adds h"
  shows "apply_hunk buf h =
         Inr (Some (slice_to buf (old_start h - 1) @ map text' (lines h) @
                    slice_from buf (old_start h - 1)))"
proof -
  from assms have "\<forall>hl \<in> set (lines h). op hl = ''+''"
    by (simp add: only_adds_def list_all_iff)
  from hunk_loop_adds[OF this] show ?thesis
    by (simp add: apply_hunk_def Let_def)
qed

text \<open>
  C10. \<open>_apply_hunk\<close> returns \<open>None\<close> exactly when a context or remove entry is
  processed with the cursor at or past the end of the buffer. A hunk of additions only
  always succeeds: its lines are inserted at the slice position, and when \<open>old_start\<close>
  lies beyond the end of the buffer they are appended after the existing content.
\<close>

theorem apply_hunk_mismatch_iff_overrun:
  "(apply_hunk file_lines h = Inr None \<longleftrightarrow> overruns file_lines h) \<and>
   (only_adds h \<longrightarrow>
      apply_hunk file_lines h =
        Inr (Some (slice_to file_lines (old_start h - 1) @ map text' (lines h) @
                   slice_from file_lines (old_start h - 1)))) \<and>
   (only_adds h \<and> int (length file_lines) < old_start h \<longrightarrow>
      apply_hunk file_lines h = Inr (Some (file_lines @ map text' (lines h))))"
proof (intro conjI impI)
  show "apply_hunk file_lines h = Inr None \<longleftrightarrow> overruns file_lines h"
    by (rule apply_hunk_none_iff)
next
  assume "only_adds h"
  thus "apply_hunk file_lines h =
        Inr (Some (slice_to file_lines (old_start h - 1) @ map text' (lines h) @
                   slice_from file_lines (old_start h - 1)))"
    by (rule apply_hunk_adds)
next
  assume a: "only_adds h \<and> int (length file_lines) < old_start h"
  hence "int (length file_lines) \<le> old_start h - 1" by simp
  from slice_past_end[OF this] apply_hunk_adds[of h file_lines] a
  show "apply_hunk file_lines h = Inr (Some (file_lines @ map text' (lines h)))"
    by simp
qed

theorem apply_hunk_mismatch_iff_overrun_witness:
  "apply_hunk [''a'', ''b''] ex_hunk = Inr None \<and>
   overruns [''a'', ''b''] ex_hunk \<and>
   only_adds ex_append_hunk \<and>
   int (length [''a'', ''b'']) < old_start ex_append_hunk \<and>
   apply_hunk [''a'', ''b''] ex_append_hunk = Inr (Some [''a'', ''b'', ''x''])"
proof -
  have stale: "apply_hunk [''a'', ''b''] ex_hunk = Inr None"
    by (simp add: apply_hunk_def ex_hunk_def slice_to_def index_at_def)
  have adds: "only_adds ex_append_hunk \<and> int (length [''a'', ''b'']) < old_start ex_append_hunk"
    by (simp add: only_adds_def ex_append_hunk_def)
  have texts: "map text' (lines ex_append_hunk) = [''x'']"
    by (simp add: ex_append_hunk_def)
  from stale apply_hunk_mismatch_iff_overrun[of "[''a'', ''b'']" ex_hunk]
  have ovr: "overruns [''a'', ''b''] ex_hunk" by blast
  from adds apply_hunk_mismatch_iff_overrun[of "[''a'', ''b'']" ex_append_hunk]
  have "apply_hunk [''a'', ''b''] ex_append_hunk =
        Inr (Some ([''a'', ''b''] @ map text' (lines ex_append_hunk)))" by blast
  with texts have "apply_hunk [''a'', ''b''] ex_append_hunk = Inr (Some [''a'', ''b'', ''x''])"
    by simp
  with stale ovr adds show ?thesis by blast
qed

lemma hunk_loop_old_text:
  "list_all2 (\<lambda>a b. op a = op b \<and> (\<not> is_old a \<longrightarrow> text' a = text' b)) ls1 ls2 \<Longrightarrow>
   hunk_loop ls1 buf res c = hunk_loop ls2 buf res c"
proof (induction ls1 ls2 arbitrary: res c rule: list_all2_induct)
  case Nil
  show ?case by simp
next
  case (Cons a ls1 b ls2)
  thus ?case by (auto simp: is_old_def split: sum.splits)
qed

text \<open>
  C5. Two hunks that differ only in the text of their context and remove entries give
  the same result on every buffer: the same lines, the same mismatch, or the same
  exception. The applier never compares that text with the source line.
\<close>

theorem apply_hunk_ignores_old_text:
  "equal_up_to_old_text h1 h2 \<Longrightarrow> apply_hunk file_lines h1 = apply_hunk file_lines h2"
  unfolding equal_up_to_old_text_def apply_hunk_def Let_def
  using hunk_loop_old_text by auto

theorem apply_hunk_ignores_old_text_witness:
  "equal_up_to_old_text ex_hunk ex_hunk_retext \<and>
   apply_hunk [''a'', ''b'', ''c''] ex_hunk = Inr (Some [''a'', ''B'', ''c'']) \<and>
   apply_hunk [''a'', ''b'', ''c''] ex_hunk_retext = Inr (Some [''a'', ''B'', ''c''])"
proof -
  have eq: "equal_up_to_old_text ex_hunk ex_hunk_retext"
    by (simp add: equal_up_to_old_text_def ex_hunk_def ex_hunk_retext_def is_old_def)
  have "apply_hunk [''a'', ''b'', ''c''] ex_hunk = Inr (Some [''a'', ''B'', ''c''])"
    by (simp add: apply_hunk_def ex_hunk_def slice_to_def slice_from_def index_at_def)
  with eq apply_hunk_ignores_old_text[OF eq, of "[''a'', ''b'', ''c'']"]
  show ?thesis by simp
qed

section \<open>Reverse order against the forward simulation\<close>

lemma hunk_loop_in_range:
  "c + count_old ls \<le> length buf \<Longrightarrow>
   hunk_loop ls buf res (int c) = Inr (Some (res @ emitted ls buf c, int (c + count_old ls)))"
proof (induction ls arbitrary: res c)
  case Nil
  show ?case by (simp add: count_old_def)
next
  case (Cons hl rest)
  show ?case
  proof (cases "is_old hl")
    case True
    with Cons.prems have lt: "c < length buf" and rest: "Suc c + count_old rest \<le> length buf"
      by (simp_all add: count_old_def)
    have idx: "index_at buf (int c) = Inr (buf ! c)"
      using lt by (simp add: index_at_def Let_def)
    have step: "int c + 1 = int (Suc c)" by simp
    from True Cons.IH[OF rest] lt idx show ?thesis
      unfolding hunk_loop.simps step
      by (auto simp: is_old_def count_old_def)
  next
    case False
    with Cons.prems have rest: "c + count_old rest \<le> length buf"
      by (simp add: count_old_def)
    from False Cons.IH[OF rest] show ?thesis
      by (auto simp: is_old_def count_old_def)
  qed
qed

lemma apply_hunk_in_range:
  assumes "old_start h - 1 = int p" and "p + count_old (lines h) \<le> length buf"
  shows "apply_hunk buf h =
         Inr (Some (take p buf @ emitted (lines h) buf p @ drop (p + count_old (lines h)) buf))"
proof -
  have "slice_to buf (int p) = take p buf"
    by (simp add: slice_to_def)
  moreover have "slice_from buf (int (p + count_old (lines h))) =
                 drop (p + count_old (lines h)) buf"
    by (simp add: slice_from_def nat_int_add)
  ultimately show ?thesis
    using hunk_loop_in_range[OF assms(2), of "take p buf"] assms(1)
    by (simp add: apply_hunk_def Let_def)
qed

lemma emitted_shift:
  "(\<And>i. i < count_old ls \<Longrightarrow> b1 ! (c1 + i) = b2 ! (c2 + i)) \<Longrightarrow>
   emitted ls b1 c1 = emitted ls b2 c2"
proof (induction ls arbitrary: c1 c2)
  case Nil
  show ?case by simp
next
  case (Cons hl rest)
  show ?case
  proof (cases "is_old hl")
    case True
    have here: "b1 ! c1 = b2 ! c2"
      using Cons.prems[of 0] True by (simp add: count_old_def)
    have "emitted rest b1 (Suc c1) = emitted rest b2 (Suc c2)"
    proof (rule Cons.IH)
      fix i assume "i < count_old rest"
      with True have "Suc i < count_old (hl # rest)" by (simp add: count_old_def)
      from Cons.prems[OF this] show "b1 ! (Suc c1 + i) = b2 ! (Suc c2 + i)" by simp
    qed
    with here True show ?thesis by (auto simp: is_old_def)
  next
    case False
    have "emitted rest b1 c1 = emitted rest b2 c2"
    proof (rule Cons.IH)
      fix i assume "i < count_old rest"
      with False have "i < count_old (hl # rest)" by (simp add: count_old_def)
      from Cons.prems[OF this] show "b1 ! (c1 + i) = b2 ! (c2 + i)" .
    qed
    with False show ?thesis by (auto simp: is_old_def)
  qed
qed

lemma length_emitted: "length (emitted ls buf c) = count_new ls"
  by (induction ls arbitrary: c) (auto simp: count_new_def is_new_def)

lemma apply_hunks_snoc:
  "apply_hunks (hs @ [h]) buf =
     (case apply_hunks hs buf of
        Inl e \<Rightarrow> Inl e
      | Inr (Inl bad) \<Rightarrow> Inr (Inl bad)
      | Inr (Inr buf') \<Rightarrow> apply_hunks [h] buf')"
  by (induction hs arbitrary: buf) (auto split: sum.splits option.splits)

lemma reverse_order_patched:
  "in_file_order hs (int pos) (int (length buf)) \<Longrightarrow>
   apply_hunks (rev hs) buf = Inr (Inr (take pos buf @ patched hs buf pos))"
proof (induction hs arbitrary: pos)
  case Nil
  show ?case by simp
next
  case (Cons h hs)
  define p where "p = nat (old_start h - 1)"
  define n where "n = count_old (lines h)"
  from Cons.prems have p: "old_start h - 1 = int p" and pos: "pos \<le> p"
    and fits: "p + n \<le> length buf"
    and rest: "in_file_order hs (int (p + n)) (int (length buf))"
    by (auto simp: p_def n_def)
  define tail where "tail = patched hs buf (p + n)"
  define b where "b = take (p + n) buf @ tail"
  have later: "apply_hunks (rev hs) buf = Inr (Inr b)"
    using Cons.IH[OF rest] by (simp add: b_def tail_def)
  have fits_b: "p + count_old (lines h) \<le> length b"
    using fits by (simp add: b_def n_def)
  have same: "emitted (lines h) b p = emitted (lines h) buf p"
  proof (rule emitted_shift)
    fix i assume "i < count_old (lines h)"
    hence "p + i < p + n" by (simp add: n_def)
    with fits show "b ! (p + i) = buf ! (p + i)"
      by (simp add: b_def nth_append)
  qed
  have tk: "take p b = take p buf"
    using fits by (simp add: b_def)
  have dr: "drop (p + count_old (lines h)) b = tail"
    using fits by (simp add: b_def n_def)
  have "apply_hunk b h = Inr (Some (take p buf @ emitted (lines h) buf p @ tail))"
    using apply_hunk_in_range[OF p fits_b] same tk dr by simp
  moreover have "take p buf = take pos buf @ take (p - pos) (drop pos buf)"
    using pos by (metis le_add_diff_inverse take_add)
  ultimately have "apply_hunks [h] b = Inr (Inr (take pos buf @ patched (h # hs) buf pos))"
    by (simp add: tail_def p_def n_def)
  with later show ?case
    by (simp add: apply_hunks_snoc)
qed

lemma forward_simulation_patched:
  "in_file_order hs (int pos) (int (length buf)) \<Longrightarrow> pos \<le> length buf \<Longrightarrow>
   int (length pre) = int pos + off \<Longrightarrow>
   forward_simulation hs (pre @ drop pos buf) off = Inr (Inr (pre @ patched hs buf pos))"
proof (induction hs arbitrary: pos pre off)
  case Nil
  show ?case by simp
next
  case (Cons h hs)
  define p where "p = nat (old_start h - 1)"
  define n where "n = count_old (lines h)"
  from Cons.prems have p: "old_start h - 1 = int p" and pos: "pos \<le> p"
    and fits: "p + n \<le> length buf"
    and rest: "in_file_order hs (int (p + n)) (int (length buf))"
    by (auto simp: p_def n_def)
  define cur where "cur = pre @ drop pos buf"
  define q where "q = length pre + (p - pos)"
  define h' where "h' = h\<lparr>old_start := old_start h + off\<rparr>"
  have q: "old_start h' - 1 = int q"
    using p pos Cons.prems(3) by (simp add: h'_def q_def)
  have ls: "lines h' = lines h" by (simp add: h'_def)
  have fits_q: "q + count_old (lines h') \<le> length cur"
    using fits pos Cons.prems(2) by (simp add: q_def cur_def ls n_def)
  have same: "emitted (lines h) cur q = emitted (lines h) buf p"
  proof (rule emitted_shift)
    fix i assume "i < count_old (lines h)"
    hence inside: "p + i < length buf" using fits by (simp add: n_def)
    have "cur ! (q + i) = (pre @ drop pos buf) ! (length pre + (p - pos + i))"
      by (simp add: cur_def q_def add.assoc)
    also have "\<dots> = drop pos buf ! (p - pos + i)"
      by (rule nth_append_length_plus)
    also have "\<dots> = buf ! (p + i)"
      using pos inside by simp
    finally show "cur ! (q + i) = buf ! (p + i)" .
  qed
  have tk: "take q cur = pre @ take (p - pos) (drop pos buf)"
    by (simp add: cur_def q_def)
  have dr: "drop (q + count_old (lines h)) cur = drop (p + n) buf"
    using pos by (simp add: cur_def q_def n_def)
  define pre' where "pre' = pre @ take (p - pos) (drop pos buf) @ emitted (lines h) buf p"
  have step: "apply_hunk cur h' = Inr (Some (pre' @ drop (p + n) buf))"
    using apply_hunk_in_range[OF q fits_q] same tk dr by (simp add: ls pre'_def)
  have len: "int (length pre') = int (p + n) + (off + hunk_delta h)"
    using Cons.prems(3) pos fits
    by (simp add: pre'_def length_emitted hunk_delta_def n_def)
  have "forward_simulation hs (pre' @ drop (p + n) buf) (off + hunk_delta h) =
        Inr (Inr (pre' @ patched hs buf (p + n)))"
    using Cons.IH[OF rest fits len] .
  with step show ?case
    by (simp add: cur_def[symmetric] h'_def[symmetric] pre'_def p_def n_def)
qed

text \<open>
  C2. For hunks stored in ascending order over pairwise disjoint line ranges of the
  file, applying them in descending order, as \<open>apply_patch\<close> does, succeeds and gives
  the same line buffer as the forward simulation that applies them in ascending order
  with the accumulated line-number offset.
\<close>

theorem reverse_order_refines_forward_simulation:
  assumes "in_file_order (hunks patch) 0 (int (length file_lines))"
  shows "apply_hunks (rev (hunks patch)) file_lines =
           forward_simulation (hunks patch) file_lines 0 \<and>
         (\<exists>out. apply_hunks (rev (hunks patch)) file_lines = Inr (Inr out))"
proof -
  have "apply_hunks (rev (hunks patch)) file_lines =
        Inr (Inr (patched (hunks patch) file_lines 0))"
    using reverse_order_patched[of "hunks patch" 0 file_lines] assms by simp
  moreover have "forward_simulation (hunks patch) file_lines 0 =
        Inr (Inr (patched (hunks patch) file_lines 0))"
    using forward_simulation_patched[of "hunks patch" 0 file_lines "[]" 0] assms by simp
  ultimately show ?thesis by simp
qed

theorem reverse_order_refines_forward_simulation_witness:
  "in_file_order [ex_hunk_2, ex_hunk_20] 0 (int (length ex_25_lines)) \<and>
   apply_hunks (rev [ex_hunk_2, ex_hunk_20]) ex_25_lines =
     forward_simulation [ex_hunk_2, ex_hunk_20] ex_25_lines 0 \<and>
   forward_simulation [ex_hunk_2, ex_hunk_20] ex_25_lines 0 =
     Inr (Inr [''l1'', ''l2'', ''new a'', ''new b'', ''l4'', ''l5'', ''l6'', ''l7'', ''l8'',
               ''l9'', ''l10'', ''l11'', ''l12'', ''l13'', ''l14'', ''l15'', ''l16'', ''l17'',
               ''l18'', ''l19'', ''new c'', ''l22'', ''l23'', ''l24'', ''l25''])"
proof -
  have ord: "in_file_order (hunks \<lparr>old_path = ''f'', new_path = ''f'',
               hunks = [ex_hunk_2, ex_hunk_20]\<rparr>) 0 (int (length ex_25_lines))"
    by (simp add: ex_hunk_2_def ex_hunk_20_def ex_25_lines_def count_old_def is_old_def)
  have fwd: "forward_simulation [ex_hunk_2, ex_hunk_20] ex_25_lines 0 =
     Inr (Inr [''l1'', ''l2'', ''new a'', ''new b'', ''l4'', ''l5'', ''l6'', ''l7'', ''l8'',
               ''l9'', ''l10'', ''l11'', ''l12'', ''l13'', ''l14'', ''l15'', ''l16'', ''l17'',
               ''l18'', ''l19'', ''new c'', ''l22'', ''l23'', ''l24'', ''l25''])"
    by (simp add: ex_hunk_2_def ex_hunk_20_def ex_25_lines_def apply_hunk_def hunk_delta_def
        count_old_def count_new_def is_old_def is_new_def slice_to_def slice_from_def
        index_at_def)
  from reverse_order_refines_forward_simulation[OF ord] ord fwd
  show ?thesis by simp
qed

section \<open>The count invariant of parsed hunks\<close>

lemma startswith_single: "startswith l [c] \<longleftrightarrow> l \<noteq> [] \<and> hd l = c"
  by (cases l) (auto simp: startswith_def)

lemma count_old_snoc: "count_old (ls @ [hl]) = count_old ls + (if is_old hl then 1 else 0)"
  by (simp add: count_old_def)

lemma count_new_snoc: "count_new (ls @ [hl]) = count_new ls + (if is_new hl then 1 else 0)"
  by (simp add: count_new_def)

lemma parse_hunk_lines_counts:
  "n \<le> length ls \<Longrightarrow> list_all op_line (take n ls) \<Longrightarrow>
   int (length (filter raw_old (take n ls))) = oc \<Longrightarrow>
   int (length (filter raw_new (take n ls))) = nc \<Longrightarrow>
   int (count_old (fst (parse_hunk_lines ls acc oc nc))) = int (count_old acc) + oc \<and>
   int (count_new (fst (parse_hunk_lines ls acc oc nc))) = int (count_new acc) + nc"
proof (induction ls arbitrary: n acc oc nc)
  case Nil
  thus ?case by simp
next
  case (Cons l ls)
  show ?case
  proof (cases "oc > 0 \<or> nc > 0")
    case False
    moreover from Cons.prems have "0 \<le> oc" "0 \<le> nc" by auto
    ultimately have "oc = 0" "nc = 0" by auto
    thus ?thesis by simp
  next
    case pos: True
    with Cons.prems obtain m where n: "n = Suc m"
      by (cases n) auto
    from Cons.prems n have m: "m \<le> length ls" and ops: "list_all op_line (take m ls)"
      and l: "op_line l" by simp_all
    from Cons.prems n
    have oc: "int (length (filter raw_old (take m ls))) = oc - (if raw_old l then 1 else 0)"
      and nc: "int (length (filter raw_new (take m ls))) = nc - (if raw_new l then 1 else 0)"
      by auto
    consider (rem) "startswith l ''-''" | (add) "startswith l ''+''"
      | (ctx) "startswith l '' '' \<or> l = []" | (mark) "startswith l [CHR 0x5C]"
      using l by (auto simp: op_line_def raw_old_def raw_new_def)
    thus ?thesis
    proof cases
      case rem
      hence kind: "raw_old l" "\<not> raw_new l" "\<not> startswith l ''+''"
        by (auto simp: raw_old_def raw_new_def startswith_single)
      from Cons.IH[OF m ops oc nc, of "acc @ [\<lparr>op = ''-'', text' = drop 1 l\<rparr>]"] pos rem kind
      show ?thesis
        by (simp add: count_old_snoc count_new_snoc is_old_def is_new_def)
    next
      case add
      hence kind: "\<not> raw_old l" "raw_new l" "\<not> startswith l ''-''"
        by (auto simp: raw_old_def raw_new_def startswith_single)
      from Cons.IH[OF m ops oc nc, of "acc @ [\<lparr>op = ''+'', text' = drop 1 l\<rparr>]"] pos add kind
      show ?thesis
        by (simp add: count_old_snoc count_new_snoc is_old_def is_new_def)
    next
      case ctx
      hence kind: "raw_old l" "raw_new l" "\<not> startswith l ''-''" "\<not> startswith l ''+''"
        by (auto simp: raw_old_def raw_new_def startswith_single)
      from Cons.IH[OF m ops oc nc,
          of "acc @ [\<lparr>op = '' '', text' = (if l \<noteq> [] then drop 1 l else [])\<rparr>]"] pos ctx kind
      show ?thesis
        by (simp add: count_old_snoc count_new_snoc is_old_def is_new_def)
    next
      case mark
      hence kind: "\<not> raw_old l" "\<not> raw_new l" "\<not> startswith l ''-''" "\<not> startswith l ''+''"
        "\<not> (startswith l '' '' \<or> l = [])"
        by (auto simp: raw_old_def raw_new_def startswith_single)
      from Cons.IH[OF m ops oc nc, of acc] pos mark kind
      show ?thesis by simp
    qed
  qed
qed

lemma parse_hunk_lines_suffix:
  "\<exists>k. snd (parse_hunk_lines ls acc oc nc) = drop k ls"
proof (induction ls arbitrary: acc oc nc)
  case Nil
  show ?case by simp
next
  case (Cons l ls)
  have here: "\<exists>k. l # ls = drop k (l # ls)"
    by (rule exI[of _ 0]) simp
  have later: "\<exists>k. snd (parse_hunk_lines ls acc' oc' nc') = drop k (l # ls)" for acc' oc' nc'
  proof -
    from Cons.IH[of acc' oc' nc'] obtain k
      where "snd (parse_hunk_lines ls acc' oc' nc') = drop k ls" ..
    hence "snd (parse_hunk_lines ls acc' oc' nc') = drop (Suc k) (l # ls)" by simp
    thus ?thesis ..
  qed
  from here later show ?case by simp
qed

lemma headers_valid_drop: "headers_valid ls \<Longrightarrow> headers_valid (drop k ls)"
proof (induction ls arbitrary: k)
  case Nil
  show ?case by simp
next
  case (Cons l ls)
  thus ?case by (cases k) simp_all
qed

lemma parse_hunks_counts:
  "headers_valid ls \<Longrightarrow> list_all counts_match acc \<Longrightarrow>
   list_all counts_match (fst (parse_hunks ls acc)) \<and> headers_valid (snd (parse_hunks ls acc))"
proof (induction ls acc rule: parse_hunks.induct)
  case (1 hs)
  thus ?case by simp
next
  case (2 line rest hs)
  show ?case
  proof (cases "startswith line ''---''")
    case True
    with "2.prems" show ?thesis by simp
  next
    case False
    from "2.prems" have rest_ok: "headers_valid rest" by simp
    show ?thesis
    proof (cases "hunk_header line")
      case None
      with False "2.IH"(1)[OF False None rest_ok "2.prems"(2)] show ?thesis by simp
    next
      case (Some hdr)
      obtain os oc ns nc where hdr: "hdr = (os, oc, ns, nc)" by (cases hdr) auto
      obtain hls rest' where body: "parse_hunk_lines rest [] oc nc = (hls, rest')"
        by (cases "parse_hunk_lines rest [] oc nc") auto
      from "2.prems"(1) Some hdr have "valid_body rest oc nc" by simp
      then obtain n where "n \<le> length rest" "list_all op_line (take n rest)"
        "int (length (filter raw_old (take n rest))) = oc"
        "int (length (filter raw_new (take n rest))) = nc"
        by (auto simp: valid_body_def)
      from parse_hunk_lines_counts[OF this, of "[]"] body
      have "counts_match \<lparr>old_start = os, old_count = oc, new_start = ns, new_count = nc,
                           lines = hls\<rparr>"
        by (simp add: counts_match_def count_old_def count_new_def)
      with "2.prems"(2)
      have acc': "list_all counts_match
          (hs @ [\<lparr>old_start = os, old_count = oc, new_start = ns, new_count = nc,
                   lines = hls\<rparr>])"
        by simp
      from parse_hunk_lines_suffix[of rest "[]" oc nc] body obtain k where "rest' = drop k rest"
        by auto
      with rest_ok have rest'_ok: "headers_valid rest'"
        by (simp add: headers_valid_drop)
      from "2.IH"(2)[OF False Some[unfolded hdr] refl refl refl body[symmetric] rest'_ok acc']
      show ?thesis using False Some hdr body by simp
    qed
  qed
qed

lemma parse_files_counts:
  "headers_valid ls \<Longrightarrow> list_all (\<lambda>p. list_all counts_match (hunks p)) acc \<Longrightarrow>
   list_all (\<lambda>p. list_all counts_match (hunks p)) (parse_files ls acc)"
proof (induction ls acc rule: parse_files.induct)
  case (1 patches)
  thus ?case by simp
next
  case (2 line rest patches)
  from "2.prems" have rest_ok: "headers_valid rest" by simp
  show ?case
  proof (cases "startswith line ''---''")
    case False
    with "2.IH"(1)[OF False rest_ok "2.prems"(2)] show ?thesis by simp
  next
    case True
    hence c1: "\<not> \<not> startswith line ''---''" by simp
    show ?thesis
    proof (cases "rest = [] \<or> \<not> startswith (hd rest) ''+++''")
      case giveup: True
      with True "2.IH"(2)[OF c1 giveup rest_ok "2.prems"(2)] show ?thesis by simp
    next
      case pair: False
      obtain hs rest' where blk: "parse_hunks (tl rest) [] = (hs, rest')"
        by (cases "parse_hunks (tl rest) []") auto
      from rest_ok have "headers_valid (tl rest)"
        using headers_valid_drop[of rest 1] by (simp add: drop_Suc)
      from parse_hunks_counts[OF this, of "[]"] blk
      have hs_ok: "list_all counts_match hs" and rest'_ok: "headers_valid rest'" by simp_all
      let ?p = "\<lparr>old_path = strip_path_prefix (before_tab (strip (drop 4 line))),
                 new_path = strip_path_prefix (before_tab (strip (drop 4 (hd rest)))),
                 hunks = hs\<rparr>"
      from "2.prems"(2) hs_ok
      have acc': "list_all (\<lambda>p. list_all counts_match (hunks p)) (patches @ [?p])" by simp
      from "2.IH"(3)[OF c1 pair blk[symmetric] rest'_ok acc']
      show ?thesis using True pair blk by simp
    qed
  qed
qed

text \<open>
  C9. When every hunk header of the input is followed by a body that is consistent
  with its declared counts and not truncated, every hunk that \<open>parse_diff\<close> produces
  has as many context and remove lines as \<open>old_count\<close> and as many context and add
  lines as \<open>new_count\<close>.
\<close>

theorem parse_diff_counts_match:
  assumes "headers_valid (splitlines diff_text)"
  shows "\<forall>p \<in> set (parse_diff diff_text). \<forall>h \<in> set (hunks p).
           int (count_old (lines h)) = old_count h \<and> int (count_new (lines h)) = new_count h"
proof -
  have "list_all (\<lambda>p. list_all counts_match (hunks p)) (parse_files (splitlines diff_text) [])"
    using parse_files_counts[OF assms, of "[]"] by simp
  thus ?thesis
    by (simp add: parse_diff_def list_all_iff counts_match_def)
qed

lemma ex_diff_lines:
  "splitlines ex_diff_text =
     [''--- a/f.txt'', ''+++ b/f.txt'', ''@@ -1,3 +1,3 @@'', '' a'', ''-b'', ''+B'', '' c'']"
  by (simp add: ex_diff_text_def splitlines_def is_linebreak_def)

lemma ex_diff_parsed: "parse_diff ex_diff_text = [ex_patch]"
  by (simp add: parse_diff_def ex_diff_lines ex_patch_def ex_hunk_def startswith_def
      hunk_header_def match_range_def is_digit_def int_of_digits_def strip_def is_space_def
      before_tab_def strip_path_prefix_def)

theorem parse_diff_counts_match_witness:
  "headers_valid (splitlines ex_diff_text) \<and>
   parse_diff ex_diff_text = [ex_patch] \<and>
   int (count_old (lines ex_hunk)) = old_count ex_hunk \<and>
   int (count_new (lines ex_hunk)) = new_count ex_hunk \<and>
   old_count ex_hunk = 3 \<and> new_count ex_hunk = 3"
proof -
  have body: "valid_body ['' a'', ''-b'', ''+B'', '' c''] 3 3"
    unfolding valid_body_def
    by (rule exI[of _ 4])
       (simp add: op_line_def raw_old_def raw_new_def startswith_def)
  have heads: "headers_valid (splitlines ex_diff_text)"
    using body
    by (simp add: ex_diff_lines startswith_def hunk_header_def match_range_def is_digit_def
        int_of_digits_def)
  from parse_diff_counts_match[OF heads] ex_diff_parsed
  have "int (count_old (lines ex_hunk)) = old_count ex_hunk \<and>
        int (count_new (lines ex_hunk)) = new_count ex_hunk"
    by (simp add: ex_patch_def)
  with heads ex_diff_parsed show ?thesis
    by (simp add: ex_hunk_def)
qed

section \<open>Properties of \<open>apply_patch\<close> and \<open>apply_diff_to_codebase\<close>\<close>

lemma ex_hunk_applied: "apply_hunk [''a'', ''b'', ''c''] ex_hunk = Inr (Some [''a'', ''B'', ''c''])"
  by (simp add: apply_hunk_def ex_hunk_def slice_to_def slice_from_def index_at_def)

lemma ex_hunk_stale: "apply_hunk [''a'', ''b''] ex_hunk = Inr None"
  by (simp add: apply_hunk_def ex_hunk_def slice_to_def index_at_def)

lemma ex_abc_lines: "splitlines ''a\<newline>b\<newline>c\<newline>'' = [''a'', ''b'', ''c'']"
  by (simp add: splitlines_def is_linebreak_def)

lemma ex_ab_lines: "splitlines ''a\<newline>b\<newline>'' = [''a'', ''b'']"
  by (simp add: splitlines_def is_linebreak_def)

lemma ex_patch_fields:
  "old_path ex_patch = ''f.txt''" "new_path ex_patch = ''f.txt''" "hunks ex_patch = [ex_hunk]"
  by (simp_all add: ex_patch_def)

lemma sync_db_files: "files (sync_db patch codebase_id s) = files s"
  by (simp add: sync_db_def Let_def split: option.splits)

text \<open>
  C1. On a tree where \<open>f.txt\<close> holds \<open>"a\nb\nc\n"\<close> and can be read and written,
  applying the diff with the hunk \<open>@@ -1,3 +1,3 @@\<close>, \<open>" a"\<close>, \<open>"-b"\<close>, \<open>"+B"\<close>,
  \<open>" c"\<close> returns the single entry \<open>(True, "Patched: f.txt")\<close> and leaves
  \<open>"a\nB\nc\n"\<close> in the file.
\<close>

theorem apply_diff_concrete_scenario:
  assumes "files s ''f.txt'' = Some ''a\<newline>b\<newline>c\<newline>''"
    and "read_error s ''f.txt'' = None" and "write_error s ''f.txt'' = None"
  shows "fst (apply_diff_to_codebase ex_diff_text codebase_id s) = Inr [(True, ''Patched: f.txt'')] \<and>
         files (snd (apply_diff_to_codebase ex_diff_text codebase_id s)) ''f.txt'' =
           Some ''a\<newline>B\<newline>c\<newline>''"
proof -
  let ?s' = "s\<lparr>files := (files s)(''f.txt'' \<mapsto> ''a\<newline>B\<newline>c\<newline>'')\<rparr>"
  have hunks_ok: "apply_hunks (rev (hunks ex_patch)) (splitlines ''a\<newline>b\<newline>c\<newline>'') =
                  Inr (Inr [''a'', ''B'', ''c''])"
    by (simp add: ex_patch_fields ex_abc_lines ex_hunk_applied)
  have "patch_existing ex_patch ''f.txt'' ''a\<newline>b\<newline>c\<newline>'' s =
        (Inr (True, ''Patched: f.txt''), ?s')"
    unfolding patch_existing_def hunks_ok
    using assms(2,3) by (simp add: endswith_def)
  hence one: "apply_patch ex_patch s = (Inr (True, ''Patched: f.txt''), ?s')"
    using assms(1) by (simp add: apply_patch_def Let_def ex_patch_fields)
  have "apply_diff_to_codebase ex_diff_text codebase_id s =
        (Inr [(True, ''Patched: f.txt'')], sync_db ex_patch codebase_id ?s')"
    by (simp add: apply_diff_to_codebase_def ex_diff_parsed one)
  thus ?thesis
    by (simp add: sync_db_files)
qed

theorem apply_diff_concrete_scenario_witness:
  "files (ex_state ''a\<newline>b\<newline>c\<newline>'') ''f.txt'' = Some ''a\<newline>b\<newline>c\<newline>'' \<and>
   apply_diff_to_codebase ex_diff_text 7 (ex_state ''a\<newline>b\<newline>c\<newline>'') =
     (Inr [(True, ''Patched: f.txt'')], ex_state ''a\<newline>B\<newline>c\<newline>'')"
proof -
  let ?s = "ex_state ''a\<newline>b\<newline>c\<newline>''"
  have pre: "files ?s ''f.txt'' = Some ''a\<newline>b\<newline>c\<newline>''"
    "read_error ?s ''f.txt'' = None" "write_error ?s ''f.txt'' = None"
    by (simp_all add: ex_state_def)
  have run: "apply_diff_to_codebase ex_diff_text 7 ?s =
             (Inr [(True, ''Patched: f.txt'')], ex_state ''a\<newline>B\<newline>c\<newline>'')"
    by (simp add: apply_diff_to_codebase_def ex_diff_parsed apply_patch_def ex_patch_fields
        patch_existing_def ex_abc_lines ex_hunk_applied endswith_def sync_db_def ex_state_def
        Let_def)
  from apply_diff_concrete_scenario[OF pre, of 7] pre(1) run show ?thesis
    by simp
qed

lemma apply_hunks_mismatch_at:
  "apply_hunks before buf = Inr (Inr buf') \<Longrightarrow> apply_hunk buf' hunk = Inr None \<Longrightarrow>
   apply_hunks (before @ hunk # after) buf = Inr (Inl hunk)"
  by (induction before arbitrary: buf) (auto split: sum.splits option.splits)

text \<open>
  C3. For a modification patch whose file exists and can be read: when, in the
  reverse-order application, the hunks before some hunk apply and that hunk overruns
  the buffer, \<open>apply_patch\<close> returns the failure entry that names the file and the
  \<open>old_start\<close> of that hunk, and the state is unchanged: nothing is written.
\<close>

theorem apply_patch_mismatch_leaves_file:
  assumes "old_path patch \<noteq> []"
    and "files s (target_path patch s) = Some original"
    and "read_error s (target_path patch s) = None"
    and "rev (hunks patch) = before @ hunk # after"
    and "apply_hunks before (splitlines original) = Inr (Inr buf)"
    and "overruns buf hunk"
  shows "apply_patch patch s =
           (Inr (False, ''Hunk mismatch in '' @ target_path patch s @ '' at line '' @
                        str_int (old_start hunk) @ ''. Patch may be stale.''), s)"
proof -
  from assms(6) have "apply_hunk buf hunk = Inr None"
    by (simp add: apply_hunk_none_iff)
  from apply_hunks_mismatch_at[OF assms(5) this, of after] assms(4)
  have bad: "apply_hunks (rev (hunks patch)) (splitlines original) = Inr (Inl hunk)"
    by simp
  have "patch_existing patch (target_path patch s) original s =
        (Inr (False, ''Hunk mismatch in '' @ target_path patch s @ '' at line '' @
                     str_int (old_start hunk) @ ''. Patch may be stale.''), s)"
    unfolding patch_existing_def bad
    using assms(3) by simp
  thus ?thesis
    using assms(1,2)
    by (auto simp: apply_patch_def target_path_def Let_def split: option.splits if_splits)
qed

theorem apply_patch_mismatch_leaves_file_witness:
  "old_path ex_patch \<noteq> [] \<and>
   target_path ex_patch (ex_state ''a\<newline>b\<newline>'') = ''f.txt'' \<and>
   files (ex_state ''a\<newline>b\<newline>'') ''f.txt'' = Some ''a\<newline>b\<newline>'' \<and>
   overruns (splitlines ''a\<newline>b\<newline>'') ex_hunk \<and>
   apply_patch ex_patch (ex_state ''a\<newline>b\<newline>'') =
     (Inr (False, ''Hunk mismatch in f.txt at line 1. Patch may be stale.''),
      ex_state ''a\<newline>b\<newline>'')"
proof -
  let ?s = "ex_state ''a\<newline>b\<newline>''"
  have tp: "target_path ex_patch ?s = ''f.txt''"
    by (simp add: target_path_def ex_patch_fields ex_state_def)
  have a1: "old_path ex_patch \<noteq> []" by (simp add: ex_patch_fields)
  have a2: "files ?s (target_path ex_patch ?s) = Some ''a\<newline>b\<newline>''"
    by (simp add: tp) (simp add: ex_state_def)
  have a3: "read_error ?s (target_path ex_patch ?s) = None"
    by (simp add: ex_state_def)
  have a4: "rev (hunks ex_patch) = [] @ ex_hunk # []"
    by (simp add: ex_patch_fields)
  have a5: "apply_hunks [] (splitlines ''a\<newline>b\<newline>'') = Inr (Inr [''a'', ''b''])"
    by (simp add: ex_ab_lines)
  have a6: "overruns [''a'', ''b''] ex_hunk"
    using ex_hunk_stale by (simp add: apply_hunk_none_iff)
  have line: "str_int (old_start ex_hunk) = ''1''"
    by code_simp
  from apply_patch_mismatch_leaves_file[OF a1 a2 a3 a4 a5 a6] tp line a1 a2 a6
  show ?thesis by (simp add: ex_ab_lines)
qed

lemma ex_two_file_lines:
  "splitlines ex_two_file_diff =
     [''--- a/f.txt'', ''+++ b/f.txt'', ''@@ -1,3 +1,3 @@'', '' a'', ''-b'', ''+B'', '' c'',
      ''--- /dev/null'', ''+++ b/g.txt'', ''@@ -0,0 +1,1 @@'', ''+new'']"
  by (simp add: ex_two_file_diff_def ex_diff_text_def splitlines_def is_linebreak_def)

lemma ex_two_file_parsed: "parse_diff ex_two_file_diff = [ex_patch, ex_new_file_patch]"
  by (simp add: parse_diff_def ex_two_file_lines ex_patch_def ex_hunk_def ex_new_file_patch_def
      startswith_def hunk_header_def match_range_def is_digit_def int_of_digits_def strip_def
      is_space_def before_tab_def strip_path_prefix_def Let_def)

lemma ex_zero_start_parsed: "parse_diff ex_zero_start_diff = [ex_zero_start_patch]"
  by (simp add: parse_diff_def ex_zero_start_diff_def splitlines_def is_linebreak_def
      ex_zero_start_patch_def startswith_def hunk_header_def match_range_def is_digit_def
      int_of_digits_def strip_def is_space_def before_tab_def strip_path_prefix_def Let_def)

text \<open>
  C6 fails on the code: the \<open>write_text\<close> that ends a modification stands outside
  every \<open>try\<close>, and so does the loop over the hunks. On a tree where \<open>f.txt\<close> is
  read-only, the diff that patches \<open>f.txt\<close> and then creates \<open>g.txt\<close> makes
  \<open>apply_diff_to_codebase\<close> raise: no outcome list is returned and the second file
  patch, which would succeed, is never processed. On an empty \<open>f.txt\<close>, a hunk that
  starts at old line 0 with a context line raises \<open>IndexError\<close>.
\<close>

theorem apply_diff_raises_on_write_failure:
  "apply_diff_to_codebase ex_two_file_diff 7 (ex_readonly_state ''a\<newline>b\<newline>c\<newline>'') =
     (Inl (OSError ''Permission denied''), ex_readonly_state ''a\<newline>b\<newline>c\<newline>'') \<and>
   files (ex_readonly_state ''a\<newline>b\<newline>c\<newline>'') ''g.txt'' = None \<and>
   fst (apply_patch ex_new_file_patch (ex_readonly_state ''a\<newline>b\<newline>c\<newline>'')) =
     Inr (True, ''Created new file: g.txt'') \<and>
   apply_diff_to_codebase ex_zero_start_diff 7 (ex_state []) = (Inl IndexError, ex_state [])"
proof -
  have "apply_diff_to_codebase ex_zero_start_diff 7 (ex_state []) = (Inl IndexError, ex_state [])"
    by (simp add: apply_diff_to_codebase_def ex_zero_start_parsed apply_patch_def
        ex_zero_start_patch_def patch_existing_def splitlines_def apply_hunk_def slice_to_def
        index_at_def ex_state_def Let_def)
  moreover have
    "apply_diff_to_codebase ex_two_file_diff 7 (ex_readonly_state ''a\<newline>b\<newline>c\<newline>'') =
       (Inl (OSError ''Permission denied''), ex_readonly_state ''a\<newline>b\<newline>c\<newline>'') \<and>
     files (ex_readonly_state ''a\<newline>b\<newline>c\<newline>'') ''g.txt'' = None \<and>
     fst (apply_patch ex_new_file_patch (ex_readonly_state ''a\<newline>b\<newline>c\<newline>'')) =
       Inr (True, ''Created new file: g.txt'')"
    by (simp add: apply_diff_to_codebase_def ex_two_file_parsed apply_patch_def ex_patch_fields
        patch_existing_def ex_abc_lines ex_hunk_applied endswith_def ex_readonly_state_def
        ex_state_def ex_new_file_patch_def create_file_def Let_def)
  ultimately show ?thesis by simp
qed

lemma inner_fold_texts:
  "foldl (\<lambda>content hl.
      if op hl = ''+'' \<or> op hl = '' '' then content @ text' hl @ [CHR 0x0A] else content)
     acc ls =
   acc @ concat (map (\<lambda>t. t @ [CHR 0x0A]) (map text' (filter is_new ls)))"
  by (induction ls arbitrary: acc) (auto simp: is_new_def)

lemma outer_fold_texts:
  "foldl (\<lambda>content hunk.
      foldl (\<lambda>content hl.
         if op hl = ''+'' \<or> op hl = '' '' then content @ text' hl @ [CHR 0x0A] else content)
        content (lines hunk))
     acc hs =
   acc @ concat (map (\<lambda>t. t @ [CHR 0x0A]) (kept_texts hs))"
  (is "foldl ?F acc hs = _")
proof (induction hs arbitrary: acc)
  case Nil
  show ?case by (simp add: kept_texts_def)
next
  case (Cons h hs)
  have "foldl ?F acc (h # hs) = foldl ?F (?F acc h) hs"
    by (simp only: foldl_Cons)
  also have "\<dots> = ?F acc h @ concat (map (\<lambda>t. t @ [CHR 0x0A]) (kept_texts hs))"
    by (rule Cons.IH)
  also have "?F acc h =
      acc @ concat (map (\<lambda>t. t @ [CHR 0x0A]) (map text' (filter is_new (lines h))))"
    by (rule inner_fold_texts)
  finally show ?case
    by (simp add: kept_texts_def)
qed

lemma new_file_content_texts:
  "new_file_content hs = concat (map (\<lambda>t. t @ [CHR 0x0A]) (kept_texts hs))"
  unfolding new_file_content_def outer_fold_texts by simp

lemma terminated_join:
  "ts \<noteq> [] \<Longrightarrow> concat (map (\<lambda>t. t @ [CHR 0x0A]) ts) = join_lines ts @ [CHR 0x0A]"
  by (induction ts rule: join_lines.induct) simp_all

text \<open>
  C7. A patch with empty \<open>old_path\<close> and a \<open>new_path\<close>, on a tree where neither
  \<open>mkdir\<close> nor \<open>write_text\<close> fails for that path: \<open>apply_patch\<close> creates the parent
  directories, writes the file and reports success. The content is the text of every
  add and context entry, across the hunks in order, each followed by one line
  terminator; with at least one such entry this is those texts joined by single
  terminators and closed by exactly one more.
\<close>

theorem apply_patch_creates_file:
  assumes "old_path patch = []" and "new_path patch \<noteq> []"
    and "mkdir_error s (new_path patch) = None" and "write_error s (new_path patch) = None"
  shows "apply_patch patch s =
           (Inr (True, ''Created new file: '' @ new_path patch),
            s\<lparr>mkdirs := mkdirs s @ [new_path patch],
              files := (files s)(new_path patch \<mapsto> new_file_content (hunks patch))\<rparr>) \<and>
         new_file_content (hunks patch) =
           concat (map (\<lambda>t. t @ [CHR 0x0A]) (kept_texts (hunks patch))) \<and>
         (kept_texts (hunks patch) \<noteq> [] \<longrightarrow>
            new_file_content (hunks patch) = join_lines (kept_texts (hunks patch)) @ [CHR 0x0A])"
proof (intro conjI impI)
  show "apply_patch patch s =
           (Inr (True, ''Created new file: '' @ new_path patch),
            s\<lparr>mkdirs := mkdirs s @ [new_path patch],
              files := (files s)(new_path patch \<mapsto> new_file_content (hunks patch))\<rparr>)"
    using assms by (simp add: apply_patch_def create_file_def Let_def)
next
  show "new_file_content (hunks patch) =
        concat (map (\<lambda>t. t @ [CHR 0x0A]) (kept_texts (hunks patch)))"
    by (rule new_file_content_texts)
next
  assume "kept_texts (hunks patch) \<noteq> []"
  thus "new_file_content (hunks patch) = join_lines (kept_texts (hunks patch)) @ [CHR 0x0A]"
    by (simp add: new_file_content_texts terminated_join)
qed

theorem apply_patch_creates_file_witness:
  "old_path ex_new_file_patch = [] \<and> new_path ex_new_file_patch = ''g.txt'' \<and>
   kept_texts (hunks ex_new_file_patch) = [''new''] \<and>
   fst (apply_patch ex_new_file_patch (ex_state ''a\<newline>b\<newline>c\<newline>'')) =
     Inr (True, ''Created new file: g.txt'') \<and>
   files (snd (apply_patch ex_new_file_patch (ex_state ''a\<newline>b\<newline>c\<newline>''))) ''g.txt'' =
     Some ''new\<newline>'' \<and>
   mkdirs (snd (apply_patch ex_new_file_patch (ex_state ''a\<newline>b\<newline>c\<newline>''))) = [''g.txt'']"
proof -
  let ?s = "ex_state ''a\<newline>b\<newline>c\<newline>''"
  have a1: "old_path ex_new_file_patch = []" and a2: "new_path ex_new_file_patch \<noteq> []"
    and np: "new_path ex_new_file_patch = ''g.txt''"
    by (simp_all add: ex_new_file_patch_def)
  have a3: "mkdir_error ?s (new_path ex_new_file_patch) = None"
    and a4: "write_error ?s (new_path ex_new_file_patch) = None"
    by (simp_all add: ex_state_def)
  have kt: "kept_texts (hunks ex_new_file_patch) = [''new'']"
    by (simp add: kept_texts_def ex_new_file_patch_def is_new_def)
  have md: "mkdirs ?s = []" by (simp add: ex_state_def)
  from apply_patch_creates_file[OF a1 a2 a3 a4] kt np md a1
  show ?thesis by simp
qed

lemma parse_files_no_header_pair: "no_header_pair ls \<Longrightarrow> parse_files ls acc = acc"
proof (induction ls acc rule: parse_files.induct)
  case (1 patches)
  show ?case by simp
next
  case (2 line rest patches)
  have rest_ok: "no_header_pair rest"
    using "2.prems" by (cases rest) simp_all
  show ?case
  proof (cases "startswith line ''---''")
    case False
    with "2.IH"(1)[OF False rest_ok] show ?thesis by simp
  next
    case True
    hence c1: "\<not> \<not> startswith line ''---''" by simp
    have giveup: "rest = [] \<or> \<not> startswith (hd rest) ''+++''"
      using "2.prems" True by (cases rest) simp_all
    with True "2.IH"(2)[OF c1 giveup rest_ok] show ?thesis by simp
  qed
qed

text \<open>
  C8. When \<open>parse_diff\<close> yields no file patch, \<open>apply_diff_to_codebase\<close> returns the
  single entry \<open>(False, "No valid patches found in diff.")\<close> and leaves the state as it
  was. This is the case whenever no line that starts with \<open>---\<close> has a line that
  starts with \<open>+++\<close> right after it.
\<close>

theorem apply_diff_no_patches:
  "(parse_diff diff_text = [] \<longrightarrow>
      apply_diff_to_codebase diff_text codebase_id s =
        (Inr [(False, ''No valid patches found in diff.'')], s)) \<and>
   (no_header_pair (splitlines diff_text) \<longrightarrow> parse_diff diff_text = [])"
  by (simp add: apply_diff_to_codebase_def parse_diff_def parse_files_no_header_pair)

theorem apply_diff_no_patches_witness:
  "no_header_pair (splitlines ex_headless_diff) \<and>
   parse_diff ex_headless_diff = [] \<and>
   apply_diff_to_codebase ex_headless_diff 7 (ex_state ''a\<newline>b\<newline>c\<newline>'') =
     (Inr [(False, ''No valid patches found in diff.'')], ex_state ''a\<newline>b\<newline>c\<newline>'')"
proof -
  have "splitlines ex_headless_diff =
        [''--- a/f.txt'', ''@@ -1,3 +1,3 @@'', '' a'', ''-b'', ''+B'', '' c'']"
    by (simp add: ex_headless_diff_def splitlines_def is_linebreak_def)
  hence nh: "no_header_pair (splitlines ex_headless_diff)"
    by (simp add: startswith_def)
  with apply_diff_no_patches[of ex_headless_diff 7 "ex_state ''a\<newline>b\<newline>c\<newline>''"]
  show ?thesis by blast
qed

section \<open>Applying the same patch twice\<close>

lemma hunk_loop_nonneg:
  "0 \<le> c \<Longrightarrow>
   (if 0 < count_old ls \<and> int (length buf) < c + int (count_old ls)
    then hunk_loop ls buf res c = Inr None
    else \<exists>out. hunk_loop ls buf res c = Inr (Some (out, c + int (count_old ls))) \<and>
               length out = length res + count_new ls)"
proof (induction ls arbitrary: res c)
  case Nil
  show ?case by (simp add: count_old_def count_new_def)
next
  case (Cons hl rest)
  show ?case
  proof (cases "is_old hl")
    case old: True
    hence co: "count_old (hl # rest) = Suc (count_old rest)"
      by (simp add: count_old_def)
    show ?thesis
    proof (cases "int (length buf) \<le> c")
      case True
      with old have "hunk_loop (hl # rest) buf res c = Inr None"
        by (auto simp: is_old_def)
      with True co show ?thesis by simp
    next
      case False
      with Cons.prems have idx: "index_at buf c = Inr (buf ! nat c)"
        by (simp add: index_at_def Let_def)
      have c1: "0 \<le> c + 1" using Cons.prems by simp
      show ?thesis
      proof (cases "op hl = '' ''")
        case ctx: True
        hence cn: "count_new (hl # rest) = Suc (count_new rest)"
          by (simp add: count_new_def is_new_def)
        have step: "hunk_loop (hl # rest) buf res c =
                    hunk_loop rest buf (res @ [buf ! nat c]) (c + 1)"
          using ctx False idx by simp
        from Cons.IH[OF c1, of "res @ [buf ! nat c]"] False
        show ?thesis unfolding step co cn
          by (auto simp: add.assoc split: if_splits)
      next
        case nctx: False
        with old have rm: "op hl = ''-''" by (simp add: is_old_def)
        hence cn: "count_new (hl # rest) = count_new rest"
          by (simp add: count_new_def is_new_def)
        have step: "hunk_loop (hl # rest) buf res c = hunk_loop rest buf res (c + 1)"
          using rm False by simp
        from Cons.IH[OF c1, of res] False
        show ?thesis unfolding step co cn
          by (auto simp: add.assoc split: if_splits)
      qed
    qed
  next
    case new: False
    hence co: "count_old (hl # rest) = count_old rest"
      by (simp add: count_old_def)
    from new have ops: "op hl \<noteq> '' ''" "op hl \<noteq> ''-''" by (simp_all add: is_old_def)
    show ?thesis
    proof (cases "op hl = ''+''")
      case True
      hence cn: "count_new (hl # rest) = Suc (count_new rest)"
        by (simp add: count_new_def is_new_def)
      have step: "hunk_loop (hl # rest) buf res c = hunk_loop rest buf (res @ [text' hl]) c"
        using True by simp
      from Cons.IH[OF Cons.prems, of "res @ [text' hl]"]
      show ?thesis unfolding step co cn by (auto split: if_splits)
    next
      case False
      with ops have cn: "count_new (hl # rest) = count_new rest"
        by (simp add: count_new_def is_new_def)
      have step: "hunk_loop (hl # rest) buf res c = hunk_loop rest buf res c"
        using False ops by simp
      from Cons.IH[OF Cons.prems, of res]
      show ?thesis unfolding step co cn by (auto split: if_splits)
    qed
  qed
qed

lemma apply_hunk_from_line_1:
  assumes "1 \<le> old_start h"
  shows "if 0 < count_old (lines h) \<and>
            int (length buf) < old_start h - 1 + int (count_old (lines h))
         then apply_hunk buf h = Inr None
         else \<exists>out. apply_hunk buf h = Inr (Some out) \<and>
                    int (length out) = int (length buf) + hunk_delta h"
proof -
  define c where "c = old_start h - 1"
  define n where "n = count_old (lines h)"
  have c0: "0 \<le> c" using assms by (simp add: c_def)
  show ?thesis
  proof (cases "0 < n \<and> int (length buf) < c + int n")
    case True
    with hunk_loop_nonneg[OF c0, of "lines h" buf "slice_to buf c"]
    have "hunk_loop (lines h) buf (slice_to buf c) c = Inr None"
      by (simp add: n_def)
    with True show ?thesis
      by (simp add: apply_hunk_def Let_def c_def n_def)
  next
    case False
    with hunk_loop_nonneg[OF c0, of "lines h" buf "slice_to buf c"]
    obtain out where out: "hunk_loop (lines h) buf (slice_to buf c) c = Inr (Some (out, c + int n))"
      and len: "length out = length (slice_to buf c) + count_new (lines h)"
      by (auto simp: n_def split: if_splits)
    have res: "apply_hunk buf h = Inr (Some (out @ slice_from buf (c + int n)))"
      using out by (simp add: apply_hunk_def Let_def c_def)
    have "int (length (slice_to buf c)) + int (length (slice_from buf (c + int n))) =
          int (length buf) - int n"
      using False c0 by (auto simp: slice_to_def slice_from_def)
    with len have "int (length (out @ slice_from buf (c + int n))) =
                   int (length buf) + hunk_delta h"
      by (simp add: hunk_delta_def n_def)
    with res False show ?thesis
      by (auto simp: c_def n_def)
  qed
qed

lemma apply_hunks_length:
  "apply_hunks hs b = Inr (Inr r) \<Longrightarrow> \<forall>h \<in> set hs. 1 \<le> old_start h \<Longrightarrow>
   int (length r) = int (length b) + sum_list (map hunk_delta hs)"
proof (induction hs arbitrary: b)
  case Nil
  thus ?case by simp
next
  case (Cons h hs)
  from Cons.prems(2) have h1: "1 \<le> old_start h" by simp
  from Cons.prems(1) obtain m where m: "apply_hunk b h = Inr (Some m)"
    and rest: "apply_hunks hs m = Inr (Inr r)"
    by (auto split: sum.splits option.splits)
  from apply_hunk_from_line_1[OF h1, of b] m
  have "int (length m) = int (length b) + hunk_delta h"
    by (auto split: if_splits)
  with Cons.IH[OF rest] Cons.prems(2) show ?case by simp
qed

lemma apply_hunks_longer_buffer:
  "apply_hunks hs b1 = Inr (Inr r1) \<Longrightarrow> \<forall>h \<in> set hs. 1 \<le> old_start h \<Longrightarrow>
   length b1 \<le> length b2 \<Longrightarrow> \<exists>r2. apply_hunks hs b2 = Inr (Inr r2)"
proof (induction hs arbitrary: b1 b2)
  case Nil
  show ?case by simp
next
  case (Cons h hs)
  from Cons.prems(2) have h1: "1 \<le> old_start h" by simp
  from Cons.prems(1) obtain m1 where m1: "apply_hunk b1 h = Inr (Some m1)"
    and rest: "apply_hunks hs m1 = Inr (Inr r1)"
    by (auto split: sum.splits option.splits)
  from apply_hunk_from_line_1[OF h1, of b1] m1
  have fits: "\<not> (0 < count_old (lines h) \<and>
                  int (length b1) < old_start h - 1 + int (count_old (lines h)))"
    and l1: "int (length m1) = int (length b1) + hunk_delta h"
    by (auto split: if_splits)
  from fits Cons.prems(3)
  have "\<not> (0 < count_old (lines h) \<and>
            int (length b2) < old_start h - 1 + int (count_old (lines h)))"
    by auto
  with apply_hunk_from_line_1[OF h1, of b2]
  obtain m2 where m2: "apply_hunk b2 h = Inr (Some m2)"
    and l2: "int (length m2) = int (length b2) + hunk_delta h"
    by (auto split: if_splits)
  from l1 l2 Cons.prems(3) have "length m1 \<le> length m2" by simp
  from Cons.IH[OF rest _ this] Cons.prems(2) obtain r2
    where "apply_hunks hs m2 = Inr (Inr r2)" by auto
  with m2 show ?case by simp
qed

text \<open>
  C4 fails on the code: the patch of the concrete scenario applies to
  \<open>"a\nb\nc\n"\<close>, and the identical patch applies again to the changed file
  \<open>"a\nB\nc\n"\<close> with a success entry.
\<close>

theorem reapply_accepted_counterexample:
  "apply_patch ex_patch (ex_state ''a\<newline>b\<newline>c\<newline>'') =
     (Inr (True, ''Patched: f.txt''), ex_state ''a\<newline>B\<newline>c\<newline>'') \<and>
   apply_patch ex_patch (ex_state ''a\<newline>B\<newline>c\<newline>'') =
     (Inr (True, ''Patched: f.txt''), ex_state ''a\<newline>B\<newline>c\<newline>'')"
  by (simp add: apply_patch_def ex_patch_fields patch_existing_def splitlines_def is_linebreak_def
      apply_hunk_def ex_hunk_def slice_to_def slice_from_def index_at_def endswith_def
      ex_state_def Let_def)

text \<open>
  C4 as amended. Whether the identical patch applies a second time, to the line buffer
  that the first application produced, depends on positions and counts only. For a
  patch of one hunk that starts at line 1 or later, the second application fails with
  a mismatch exactly when the hunk has a context or remove entry and its start plus the
  number of those entries runs past the end of the changed buffer. A patch all of
  whose hunks start at line 1 or later and write at least as many lines as they read
  is accepted a second time.
\<close>

theorem reapply_depends_on_positions_only:
  assumes "\<forall>h \<in> set (hunks patch). 1 \<le> old_start h"
    and "apply_hunks (rev (hunks patch)) file_lines = Inr (Inr changed)"
  shows "(\<forall>h. hunks patch = [h] \<longrightarrow>
            (apply_hunks (rev (hunks patch)) changed = Inr (Inl h) \<longleftrightarrow>
             0 < count_old (lines h) \<and>
             int (length changed) < old_start h - 1 + int (count_old (lines h)))) \<and>
         ((\<forall>h \<in> set (hunks patch). 0 \<le> hunk_delta h) \<longrightarrow>
            (\<exists>again. apply_hunks (rev (hunks patch)) changed = Inr (Inr again)))"
proof (intro conjI allI impI)
  fix h assume one: "hunks patch = [h]"
  with assms(1) have h1: "1 \<le> old_start h" by simp
  from apply_hunk_from_line_1[OF h1, of changed]
  have "apply_hunk changed h = Inr None \<longleftrightarrow>
        0 < count_old (lines h) \<and>
        int (length changed) < old_start h - 1 + int (count_old (lines h))"
    by (auto split: if_splits)
  moreover have "apply_hunks (rev (hunks patch)) changed = Inr (Inl h) \<longleftrightarrow>
                 apply_hunk changed h = Inr None"
    by (auto simp: one split: sum.splits option.splits)
  ultimately show "apply_hunks (rev (hunks patch)) changed = Inr (Inl h) \<longleftrightarrow>
        0 < count_old (lines h) \<and>
        int (length changed) < old_start h - 1 + int (count_old (lines h))"
    by simp
next
  assume grow: "\<forall>h \<in> set (hunks patch). 0 \<le> hunk_delta h"
  have starts: "\<forall>h \<in> set (rev (hunks patch)). 1 \<le> old_start h"
    using assms(1) by simp
  have "0 \<le> sum_list (map hunk_delta (rev (hunks patch)))"
    using grow by (intro sum_list_nonneg) auto
  with apply_hunks_length[OF assms(2) starts]
  have "length file_lines \<le> length changed" by simp
  from apply_hunks_longer_buffer[OF assms(2) starts this]
  show "\<exists>again. apply_hunks (rev (hunks patch)) changed = Inr (Inr again)" .
qed

theorem reapply_depends_on_positions_only_witness:
  "apply_hunks (rev (hunks ex_patch)) [''a'', ''b'', ''c''] = Inr (Inr [''a'', ''B'', ''c'']) \<and>
   apply_hunks (rev (hunks ex_patch)) [''a'', ''B'', ''c''] = Inr (Inr [''a'', ''B'', ''c'']) \<and>
   apply_hunks (rev (hunks ex_remove_patch)) [''a'', ''b''] = Inr (Inr [''a'']) \<and>
   apply_hunks (rev (hunks ex_remove_patch)) [''a''] = Inr (Inl ex_remove_hunk)"
proof -
  have s1: "\<forall>h \<in> set (hunks ex_patch). 1 \<le> old_start h"
    by (simp add: ex_patch_fields ex_hunk_def)
  have r1: "apply_hunks (rev (hunks ex_patch)) [''a'', ''b'', ''c''] =
            Inr (Inr [''a'', ''B'', ''c''])"
    by (simp add: ex_patch_fields ex_hunk_applied)
  have g1: "\<forall>h \<in> set (hunks ex_patch). 0 \<le> hunk_delta h"
    by (simp add: ex_patch_fields ex_hunk_def hunk_delta_def count_old_def count_new_def
        is_old_def is_new_def)
  from reapply_depends_on_positions_only[OF s1 r1] g1
  obtain again where "apply_hunks (rev (hunks ex_patch)) [''a'', ''B'', ''c''] = Inr (Inr again)"
    by blast
  moreover have "apply_hunk [''a'', ''B'', ''c''] ex_hunk = Inr (Some [''a'', ''B'', ''c''])"
    by (simp add: apply_hunk_def ex_hunk_def slice_to_def slice_from_def index_at_def)
  ultimately have r2: "apply_hunks (rev (hunks ex_patch)) [''a'', ''B'', ''c''] =
                       Inr (Inr [''a'', ''B'', ''c''])"
    by (simp add: ex_patch_fields)
  have one: "hunks ex_remove_patch = [ex_remove_hunk]"
    by (simp add: ex_remove_patch_def)
  have s2: "\<forall>h \<in> set (hunks ex_remove_patch). 1 \<le> old_start h"
    by (simp add: one) (simp add: ex_remove_hunk_def)
  have r3: "apply_hunks (rev (hunks ex_remove_patch)) [''a'', ''b''] = Inr (Inr [''a''])"
    by (simp add: one apply_hunk_def ex_remove_hunk_def slice_to_def slice_from_def)
  have over_end: "0 < count_old (lines ex_remove_hunk) \<and>
        int (length [''a'']) < old_start ex_remove_hunk - 1 + int (count_old (lines ex_remove_hunk))"
    by (simp add: ex_remove_hunk_def count_old_def is_old_def)
  from reapply_depends_on_positions_only[OF s2 r3] one over_end
  have r4: "apply_hunks (rev (hunks ex_remove_patch)) [''a''] = Inr (Inl ex_remove_hunk)"
    by blast
  from r1 r2 r3 r4 show ?thesis by blast
qed

end
